theory Spec2Isabelle
  imports Main "HOL-Library.AList" "HOL-Library.Multiset"
begin

section \<open>GraphId codec\<close>

text \<open>
  \<^verbatim>\<open>toGraphId = (key) => JSON.stringify(key.path)\<close>. An asset key carries a path of
  strings; its GraphId is the JSON text of that array. The quoting follows ECMAScript's
  QuoteJSONString on one-byte characters.
\<close>

type_synonym GraphId = string

record AssetKey =
  path :: "string list"

definition hexDigit :: "nat \<Rightarrow> char" where
  "hexDigit n = ''0123456789abcdef'' ! (n mod 16)"

definition quoteJSONChar :: "char \<Rightarrow> string" where
  "quoteJSONChar c =
     (if c = CHR 0x08 then [CHR 0x5C, CHR ''b'']
      else if c = CHR 0x09 then [CHR 0x5C, CHR ''t'']
      else if c = CHR 0x0A then [CHR 0x5C, CHR ''n'']
      else if c = CHR 0x0C then [CHR 0x5C, CHR ''f'']
      else if c = CHR 0x0D then [CHR 0x5C, CHR ''r'']
      else if c = CHR 0x22 then [CHR 0x5C, CHR 0x22]
      else if c = CHR 0x5C then [CHR 0x5C, CHR 0x5C]
      else if (of_char c :: nat) < 32
        then [CHR 0x5C, CHR ''u'', CHR ''0'', CHR ''0'',
              hexDigit ((of_char c :: nat) div 16), hexDigit (of_char c)]
      else [c])"

definition quoteJSONString :: "string \<Rightarrow> string" where
  "quoteJSONString s = CHR 0x22 # concat (map quoteJSONChar s) @ [CHR 0x22]"

fun joinWith :: "string \<Rightarrow> string list \<Rightarrow> string" where
  "joinWith sep [] = []"
| "joinWith sep [x] = x"
| "joinWith sep (x # y # ys) = x @ sep @ joinWith sep (y # ys)"

definition JSON_stringify :: "string list \<Rightarrow> string" where
  "JSON_stringify xs = ''['' @ joinWith '','' (map quoteJSONString xs) @ '']''"

definition toGraphId :: "AssetKey \<Rightarrow> GraphId" where
  "toGraphId key = JSON_stringify (path key)"

section \<open>Graph data\<close>

text \<open>
  The fields of an asset definition that the graph code reads. A JavaScript object is
  an association list in insertion order (\<^verbatim>\<open>Object.keys\<close> lists string keys in the
  order they were first written, and every GraphId starts with a bracket, so none is an
  array index); writing a key that exists keeps its place, which is what
  \<^const>\<open>AList.update\<close> does.
\<close>

record AssetNode =
  assetKey :: AssetKey
  dependencyKeys :: "AssetKey list"
  dependedByKeys :: "AssetKey list"
  opNames :: "string list"

record GraphNode =
  nodeId :: GraphId
  nodeAssetKey :: AssetKey
  nodeDefinition :: AssetNode

record GraphData =
  nodes :: "(GraphId \<times> GraphNode) list"
  downstream :: "(GraphId \<times> (GraphId \<times> bool) list) list"
  upstream :: "(GraphId \<times> (GraphId \<times> bool) list) list"

text \<open>\<^verbatim>\<open>obj[k] || {}\<close>: the entry, or an empty object when there is none.\<close>

definition orEmpty :: "'a list option \<Rightarrow> 'a list" where
  "orEmpty v = (case v of None \<Rightarrow> [] | Some m \<Rightarrow> m)"

definition addEdge :: "GraphId \<Rightarrow> GraphId \<Rightarrow> GraphData \<Rightarrow> GraphData" where
  "addEdge upstreamGraphId downstreamGraphId data =
     (if upstreamGraphId = downstreamGraphId then data
      else
        let data1 = data\<lparr>downstream :=
              AList.update upstreamGraphId
                (AList.update downstreamGraphId True
                   (orEmpty (map_of (downstream data) upstreamGraphId)))
                (downstream data)\<rparr>
        in data1\<lparr>upstream :=
              AList.update downstreamGraphId
                (AList.update upstreamGraphId True
                   (orEmpty (map_of (upstream data1) downstreamGraphId)))
                (upstream data1)\<rparr>)"

definition addDefinition :: "AssetNode \<Rightarrow> GraphData \<Rightarrow> GraphData" where
  "addDefinition defn data =
     (let gid = toGraphId (assetKey defn);
          data1 = fold (\<lambda>key. addEdge (toGraphId key) gid) (dependencyKeys defn) data;
          data2 = fold (\<lambda>key. addEdge gid (toGraphId key)) (dependedByKeys defn) data1
      in data2\<lparr>nodes :=
           AList.update gid
             \<lparr>nodeId = gid, nodeAssetKey = assetKey defn, nodeDefinition = defn\<rparr>
             (nodes data2)\<rparr>)"

definition emptyGraphData :: GraphData where
  "emptyGraphData = \<lparr>nodes = [], downstream = [], upstream = []\<rparr>"

definition buildGraphData :: "AssetNode list \<Rightarrow> GraphData" where
  "buildGraphData assetNodes = fold addDefinition assetNodes emptyGraphData"

text \<open>An edge is in an index when the inner object of the first id has the second id as a key.\<close>

definition edgeIn :: "(GraphId \<times> (GraphId \<times> bool) list) list \<Rightarrow> GraphId \<Rightarrow> GraphId \<Rightarrow> bool" where
  "edgeIn idx a b = (b \<in> fst ` set (orEmpty (map_of idx a)))"

section \<open>Graph builder: every declared edge is indexed both ways, self-edges never\<close>

lemma orEmpty_simps [simp]: "orEmpty None = []" "orEmpty (Some m) = m"
  by (simp_all add: orEmpty_def)

lemma edgeIn_update:
  "edgeIn (AList.update k (AList.update j True (orEmpty (map_of idx k))) idx) a b \<longleftrightarrow>
     edgeIn idx a b \<or> (a = k \<and> b = j)"
  unfolding edgeIn_def by (auto simp add: update_conv' dom_update)

lemma edgeIn_ds_addEdge:
  "edgeIn (downstream (addEdge u d data)) a b \<longleftrightarrow>
     edgeIn (downstream data) a b \<or> (u \<noteq> d \<and> a = u \<and> b = d)"
  by (simp add: addEdge_def Let_def edgeIn_update)

lemma edgeIn_us_addEdge:
  "edgeIn (upstream (addEdge u d data)) a b \<longleftrightarrow>
     edgeIn (upstream data) a b \<or> (u \<noteq> d \<and> a = d \<and> b = u)"
  by (simp add: addEdge_def Let_def edgeIn_update)

lemma edgeIn_ds_fold_deps:
  "edgeIn (downstream (fold (\<lambda>key. addEdge (toGraphId key) gid) ks data)) a b \<longleftrightarrow>
     edgeIn (downstream data) a b \<or> (a \<noteq> b \<and> b = gid \<and> a \<in> toGraphId ` set ks)"
  by (induction ks arbitrary: data) (auto simp: edgeIn_ds_addEdge)

lemma edgeIn_ds_fold_dby:
  "edgeIn (downstream (fold (\<lambda>key. addEdge gid (toGraphId key)) ks data)) a b \<longleftrightarrow>
     edgeIn (downstream data) a b \<or> (a \<noteq> b \<and> a = gid \<and> b \<in> toGraphId ` set ks)"
  by (induction ks arbitrary: data) (auto simp: edgeIn_ds_addEdge)

lemma edgeIn_us_fold_deps:
  "edgeIn (upstream (fold (\<lambda>key. addEdge (toGraphId key) gid) ks data)) b a \<longleftrightarrow>
     edgeIn (upstream data) b a \<or> (a \<noteq> b \<and> b = gid \<and> a \<in> toGraphId ` set ks)"
  by (induction ks arbitrary: data) (auto simp: edgeIn_us_addEdge)

lemma edgeIn_us_fold_dby:
  "edgeIn (upstream (fold (\<lambda>key. addEdge gid (toGraphId key)) ks data)) b a \<longleftrightarrow>
     edgeIn (upstream data) b a \<or> (a \<noteq> b \<and> a = gid \<and> b \<in> toGraphId ` set ks)"
  by (induction ks arbitrary: data) (auto simp: edgeIn_us_addEdge)

text \<open>The edges one definition declares, self-edges left out.\<close>

definition declaredEdge :: "AssetNode \<Rightarrow> GraphId \<Rightarrow> GraphId \<Rightarrow> bool" where
  "declaredEdge defn a b \<longleftrightarrow>
     a \<noteq> b \<and>
     (b = toGraphId (assetKey defn) \<and> a \<in> toGraphId ` set (dependencyKeys defn) \<or>
      a = toGraphId (assetKey defn) \<and> b \<in> toGraphId ` set (dependedByKeys defn))"

lemma edgeIn_ds_addDefinition:
  "edgeIn (downstream (addDefinition defn data)) a b \<longleftrightarrow>
     edgeIn (downstream data) a b \<or> declaredEdge defn a b"
  by (auto simp: addDefinition_def Let_def edgeIn_ds_fold_deps edgeIn_ds_fold_dby declaredEdge_def)

lemma edgeIn_us_addDefinition:
  "edgeIn (upstream (addDefinition defn data)) b a \<longleftrightarrow>
     edgeIn (upstream data) b a \<or> declaredEdge defn a b"
  by (auto simp: addDefinition_def Let_def edgeIn_us_fold_deps edgeIn_us_fold_dby declaredEdge_def)

lemma edgeIn_ds_fold_addDefinition:
  "edgeIn (downstream (fold addDefinition ds data)) a b \<longleftrightarrow>
     edgeIn (downstream data) a b \<or> (\<exists>d\<in>set ds. declaredEdge d a b)"
  by (induction ds arbitrary: data) (auto simp: edgeIn_ds_addDefinition)

lemma edgeIn_us_fold_addDefinition:
  "edgeIn (upstream (fold addDefinition ds data)) b a \<longleftrightarrow>
     edgeIn (upstream data) b a \<or> (\<exists>d\<in>set ds. declaredEdge d a b)"
  by (induction ds arbitrary: data) (auto simp: edgeIn_us_addDefinition)

lemma edgeIn_empty [simp]: "edgeIn [] a b = False"
  by (simp add: edgeIn_def)

lemma edgeIn_ds_buildGraphData:
  "edgeIn (downstream (buildGraphData ds)) a b \<longleftrightarrow> (\<exists>d\<in>set ds. declaredEdge d a b)"
  by (simp add: buildGraphData_def edgeIn_ds_fold_addDefinition emptyGraphData_def)

lemma edgeIn_us_buildGraphData:
  "edgeIn (upstream (buildGraphData ds)) b a \<longleftrightarrow> (\<exists>d\<in>set ds. declaredEdge d a b)"
  by (simp add: buildGraphData_def edgeIn_us_fold_addDefinition emptyGraphData_def)

text \<open>
  C1. For every list of definitions, each declared dependency and depended-by key whose
  GraphId differs from the definition's own is an edge of the downstream index (under the
  upstream id) and of the upstream index (under the downstream id), and neither index
  holds an edge from an id to itself.
\<close>

theorem buildGraphData_edges:
  "(\<forall>d \<in> set D. \<forall>k \<in> set (dependencyKeys d).
      toGraphId k \<noteq> toGraphId (assetKey d) \<longrightarrow>
        edgeIn (downstream (buildGraphData D)) (toGraphId k) (toGraphId (assetKey d)) \<and>
        edgeIn (upstream (buildGraphData D)) (toGraphId (assetKey d)) (toGraphId k)) \<and>
   (\<forall>d \<in> set D. \<forall>k \<in> set (dependedByKeys d).
      toGraphId k \<noteq> toGraphId (assetKey d) \<longrightarrow>
        edgeIn (downstream (buildGraphData D)) (toGraphId (assetKey d)) (toGraphId k) \<and>
        edgeIn (upstream (buildGraphData D)) (toGraphId k) (toGraphId (assetKey d))) \<and>
   (\<forall>a. \<not> edgeIn (downstream (buildGraphData D)) a a \<and>
        \<not> edgeIn (upstream (buildGraphData D)) a a)"
  unfolding edgeIn_ds_buildGraphData edgeIn_us_buildGraphData
  by (auto simp: declaredEdge_def)

definition keyOf :: "string \<Rightarrow> AssetKey" where
  "keyOf n = \<lparr>path = [n]\<rparr>"

definition selfDependentDefs :: "AssetNode list" where
  "selfDependentDefs =
     [\<lparr>assetKey = keyOf ''A'', dependencyKeys = [], dependedByKeys = [keyOf ''B''], opNames = [''a'']\<rparr>,
      \<lparr>assetKey = keyOf ''B'', dependencyKeys = [keyOf ''A'', keyOf ''B''], dependedByKeys = [],
        opNames = [''b'']\<rparr>]"

lemmas toGraphId_eval = toGraphId_def JSON_stringify_def quoteJSONString_def quoteJSONChar_def keyOf_def

text \<open>The instance: B depends on A and on itself.\<close>

theorem buildGraphData_edges_witness:
  "toGraphId (keyOf ''A'') \<noteq> toGraphId (keyOf ''B'') \<and>
   edgeIn (downstream (buildGraphData selfDependentDefs)) (toGraphId (keyOf ''A'')) (toGraphId (keyOf ''B'')) \<and>
   edgeIn (upstream (buildGraphData selfDependentDefs)) (toGraphId (keyOf ''B'')) (toGraphId (keyOf ''A'')) \<and>
   \<not> edgeIn (downstream (buildGraphData selfDependentDefs)) (toGraphId (keyOf ''B'')) (toGraphId (keyOf ''B''))"
  using buildGraphData_edges [of selfDependentDefs]
  by (simp add: selfDependentDefs_def toGraphId_eval)

section \<open>Cycle detector\<close>

text \<open>
  \<^verbatim>\<open>graphHasCycles\<close> keeps a JavaScript \<^verbatim>\<open>Set\<close> of the node ids not yet visited, shared by
  all calls of the inner \<^verbatim>\<open>search\<close>; here the set is passed in and returned. A \<^verbatim>\<open>Set\<close>
  iterates in insertion order, so it is a list without repetitions. \<^verbatim>\<open>Array.some\<close> stops
  at the first child for which the search succeeds.
\<close>

definition newSet :: "'a list \<Rightarrow> 'a list" where
  "newSet xs = fold (\<lambda>x acc. if x \<in> set acc then acc else acc @ [x]) xs []"

definition objectKeys :: "('k \<times> 'v) list \<Rightarrow> 'k list" where
  "objectKeys obj = map fst obj"

text \<open>Adding to a set kept in insertion order: what it holds, and when nothing changes.\<close>

lemma set_fold_add:
  "set (fold (\<lambda>x acc. if x \<in> set acc then acc else acc @ [x]) xs acc) = set acc \<union> set xs"
  by (induction xs arbitrary: acc) auto

lemma distinct_fold_add:
  "distinct acc \<Longrightarrow> distinct (fold (\<lambda>x acc. if x \<in> set acc then acc else acc @ [x]) xs acc)"
  by (induction xs arbitrary: acc) auto

lemma fold_add_absorb:
  "set xs \<subseteq> set acc \<Longrightarrow> fold (\<lambda>x acc. if x \<in> set acc then acc else acc @ [x]) xs acc = acc"
  by (induction xs arbitrary: acc) auto

lemma fold_add_distinct:
  "distinct xs \<Longrightarrow> set xs \<inter> set acc = {} \<Longrightarrow>
   fold (\<lambda>x acc. if x \<in> set acc then acc else acc @ [x]) xs acc = acc @ xs"
  by (induction xs arbitrary: acc) auto

lemma set_newSet [simp]: "set (newSet xs) = set xs"
  by (simp add: newSet_def set_fold_add)

lemma distinct_newSet [simp]: "distinct (newSet xs)"
  by (simp add: newSet_def distinct_fold_add)

lemma newSet_distinct: "distinct xs \<Longrightarrow> newSet xs = xs"
  using fold_add_distinct [of xs "[]"] by (simp add: newSet_def)

function search :: "GraphData \<Rightarrow> GraphId list \<Rightarrow> GraphId \<Rightarrow> GraphId list \<Rightarrow> bool \<times> GraphId list"
  and searchSome :: "GraphData \<Rightarrow> GraphId list \<Rightarrow> GraphId list \<Rightarrow> GraphId list \<Rightarrow> bool \<times> GraphId list"
  where
    "search graphData stack node unvisited =
       (if node \<in> set stack then (True, unvisited)
        else if node \<in> set unvisited then
          searchSome graphData (stack @ [node])
            (objectKeys (orEmpty (map_of (downstream graphData) node)))
            (removeAll node unvisited)
        else (False, unvisited))"
  | "searchSome graphData nextStack [] unvisited = (False, unvisited)"
  | "searchSome graphData nextStack (nextNode # rest) unvisited =
       (let (found, unvisited1) = search graphData nextStack nextNode unvisited
        in if found then (True, unvisited1)
           else searchSome graphData nextStack rest unvisited1)"
  by pat_completeness auto

text \<open>
  The search of a child runs on the set left by the searches before it, so termination
  needs that a search never enlarges the set; this is first shown on the domain.
\<close>

lemma search_shrinks:
  "search_searchSome_dom (Inl (g, stack, node, u)) \<Longrightarrow> length (snd (search g stack node u)) \<le> length u"
  "search_searchSome_dom (Inr (g, stack, ns, u)) \<Longrightarrow> length (snd (searchSome g stack ns u)) \<le> length u"
proof (induction g stack node u and g stack ns u rule: search_searchSome.pinduct)
  case (1 g stack node u)
  have "length (removeAll node u) \<le> length u" by simp
  with 1 show ?case
    by (auto simp: search.psimps intro: order_trans)
next
  case (2 g stack u)
  then show ?case by (simp add: searchSome.psimps)
next
  case (3 g stack n rest u)
  obtain found u1 where r: "search g stack n u = (found, u1)"
    by (cases "search g stack n u")
  from 3(2) r have le1: "length u1 \<le> length u" by simp
  show ?case
  proof (cases found)
    case True
    with 3(1) r le1 show ?thesis by (simp add: searchSome.psimps)
  next
    case False
    from 3(3)[OF r[symmetric] refl False] have "length (snd (searchSome g stack rest u1)) \<le> length u1" .
    with 3(1) r le1 False show ?thesis by (simp add: searchSome.psimps)
  qed
qed

termination search
proof (relation "measures [\<lambda>x. case x of Inl (g, s, n, u) \<Rightarrow> length u | Inr (g, s, ns, u) \<Rightarrow> length u,
                        \<lambda>x. case x of Inl _ \<Rightarrow> 0 | Inr (g, s, ns, u) \<Rightarrow> Suc (length ns)]", goal_cases)
  case 1
  then show ?case by simp
next
  case (2 node stack unvisited graphData)
  then show ?case by (simp add: length_removeAll_less)
next
  case (3 graphData nextStack nextNode rest unvisited)
  then show ?case by simp
next
  case (4 graphData nextStack nextNode rest unvisited x xa y)
  from 4(4) have "length (snd (search graphData nextStack nextNode unvisited)) \<le> length unvisited"
    by (rule search_shrinks(1))
  with 4(1,2) have "length y \<le> length unvisited"
    by (metis snd_conv)
  then show ?case by auto
qed

declare search.simps [simp del]

declare searchSome.simps(2) [simp del]

lemma search_le:
  "length (snd (search g stack node u)) \<le> length u"
  and searchSome_le: "length (snd (searchSome g stack ns u)) \<le> length u"
proof (induction g stack node u and g stack ns u rule: search_searchSome.induct)
  case (1 g stack node u)
  have "length (removeAll node u) \<le> length u" by simp
  with 1 show ?case
    by (auto simp: search.simps intro: order_trans)
next
  case (2 g stack u)
  then show ?case by simp
next
  case (3 g stack n rest u)
  obtain found u1 where r: "search g stack n u = (found, u1)"
    by (cases "search g stack n u")
  from 3(1) r have le1: "length u1 \<le> length u" by simp
  show ?case
  proof (cases found)
    case True
    with r le1 show ?thesis by (simp add: searchSome.simps(2))
  next
    case False
    from 3(2)[OF r[symmetric] refl False] have "length (snd (searchSome g stack rest u1)) \<le> length u1" .
    with r le1 False show ?thesis by (simp add: searchSome.simps(2))
  qed
qed

function graphHasCycles_loop :: "GraphData \<Rightarrow> GraphId list \<Rightarrow> bool \<Rightarrow> bool" where
  "graphHasCycles_loop graphData unvisited hasCycles =
     (if unvisited \<noteq> [] \<and> \<not> hasCycles then
        (let (found, unvisited1) = search graphData [] (hd unvisited) unvisited
         in graphHasCycles_loop graphData unvisited1 found)
      else hasCycles)"
  by pat_completeness auto

lemma search_root_less:
  assumes "u \<noteq> []"
  shows "length (snd (search g [] (hd u) u)) < length u"
proof -
  have "hd u \<in> set u" using assms by simp
  then have "length (removeAll (hd u) u) < length u"
    by (rule length_removeAll_less)
  moreover have "length (snd (search g [] (hd u) u)) \<le> length (removeAll (hd u) u)"
    using \<open>hd u \<in> set u\<close> by (simp add: search.simps searchSome_le)
  ultimately show ?thesis by simp
qed

termination graphHasCycles_loop
proof (relation "measure (\<lambda>(g, u, h). length u)", goal_cases)
  case 1
  then show ?case by simp
next
  case (2 graphData unvisited hasCycles x xa y)
  then have "unvisited \<noteq> []" by simp
  from search_root_less[OF this, of graphData] 2(2,3) have "length y < length unvisited"
    by (metis snd_conv)
  then show ?case by simp
qed

text \<open>The \<^verbatim>\<open>while\<close> loop starts a search at the first id still in the set.\<close>

definition graphHasCycles :: "GraphData \<Rightarrow> bool" where
  "graphHasCycles graphData =
     graphHasCycles_loop graphData (newSet (objectKeys (nodes graphData))) False"

subsection \<open>Soundness: a reported cycle is a cycle of the downstream index\<close>

definition downstreamEdges :: "GraphData \<Rightarrow> (GraphId \<times> GraphId) set" where
  "downstreamEdges g = {(a, b). edgeIn (downstream g) a b}"

text \<open>Two assets that depend on each other, and the diamond.\<close>

definition mutualDefs :: "AssetNode list" where
  "mutualDefs =
     [\<lparr>assetKey = keyOf ''A'', dependencyKeys = [keyOf ''B''], dependedByKeys = [keyOf ''B''], opNames = [''a'']\<rparr>,
      \<lparr>assetKey = keyOf ''B'', dependencyKeys = [keyOf ''A''], dependedByKeys = [keyOf ''A''], opNames = [''b'']\<rparr>]"

definition diamondDefs :: "AssetNode list" where
  "diamondDefs =
     [\<lparr>assetKey = keyOf ''A'', dependencyKeys = [], dependedByKeys = [keyOf ''B'', keyOf ''C''], opNames = [''a'']\<rparr>,
      \<lparr>assetKey = keyOf ''B'', dependencyKeys = [keyOf ''A''], dependedByKeys = [keyOf ''D''], opNames = [''b'']\<rparr>,
      \<lparr>assetKey = keyOf ''C'', dependencyKeys = [keyOf ''A''], dependedByKeys = [keyOf ''D''], opNames = [''c'']\<rparr>,
      \<lparr>assetKey = keyOf ''D'', dependencyKeys = [keyOf ''B'', keyOf ''C''], dependedByKeys = [], opNames = [''d'']\<rparr>]"

lemma objectKeys_children:
  "n \<in> set (objectKeys (orEmpty (map_of (downstream g) node))) \<longleftrightarrow> (node, n) \<in> downstreamEdges g"
  by (simp add: downstreamEdges_def edgeIn_def objectKeys_def)

lemma search_sound:
  "acyclic (downstreamEdges g) \<Longrightarrow> \<forall>s\<in>set stack. (s, node) \<in> (downstreamEdges g)\<^sup>+
     \<Longrightarrow> \<not> fst (search g stack node u)"
  and searchSome_sound:
  "acyclic (downstreamEdges g) \<Longrightarrow> \<forall>s\<in>set stack. \<forall>n\<in>set ns. (s, n) \<in> (downstreamEdges g)\<^sup>+
     \<Longrightarrow> \<not> fst (searchSome g stack ns u)"
proof (induction g stack node u and g stack ns u rule: search_searchSome.induct)
  case (1 g stack node u)
  have notin: "node \<notin> set stack"
  proof
    assume "node \<in> set stack"
    with 1(3) have "(node, node) \<in> (downstreamEdges g)\<^sup>+" by blast
    with 1(2) show False by (simp add: acyclic_def)
  qed
  show ?case
  proof (cases "node \<in> set u")
    case True
    have "\<forall>s\<in>set (stack @ [node]).
            \<forall>n\<in>set (objectKeys (orEmpty (map_of (downstream g) node))).
              (s, n) \<in> (downstreamEdges g)\<^sup>+"
    proof (intro ballI)
      fix s n
      assume s: "s \<in> set (stack @ [node])"
        and n: "n \<in> set (objectKeys (orEmpty (map_of (downstream g) node)))"
      from n have e: "(node, n) \<in> downstreamEdges g" by (simp only: objectKeys_children)
      show "(s, n) \<in> (downstreamEdges g)\<^sup>+"
      proof (cases "s = node")
        case True
        with e show ?thesis by blast
      next
        case False
        with s have "s \<in> set stack" by simp
        with 1(3) have "(s, node) \<in> (downstreamEdges g)\<^sup>+" by blast
        with e show ?thesis by (blast intro: trancl_into_trancl)
      qed
    qed
    with 1(1)[OF notin True 1(2)] notin True show ?thesis
      by (simp add: search.simps)
  next
    case False
    with notin show ?thesis by (simp add: search.simps)
  qed
next
  case (2 g stack u)
  then show ?case by simp
next
  case (3 g stack n rest u)
  obtain found u1 where r: "search g stack n u = (found, u1)"
    by (cases "search g stack n u")
  from 3(1)[OF 3(3)] 3(4) r have nf: "\<not> found" by simp
  from 3(2)[OF r[symmetric] refl nf 3(3)] 3(4)
  have "\<not> fst (searchSome g stack rest u1)" by simp
  with r nf show ?case by (simp add: searchSome.simps(2))
qed

declare graphHasCycles_loop.simps [simp del]

lemma graphHasCycles_loop_sound:
  "acyclic (downstreamEdges g) \<Longrightarrow> \<not> h \<Longrightarrow> \<not> graphHasCycles_loop g u h"
proof (induction g u h rule: graphHasCycles_loop.induct)
  case (1 g u h)
  show ?case
  proof (cases "u = []")
    case True
    with 1(3) show ?thesis by (simp add: graphHasCycles_loop.simps)
  next
    case False
    obtain found u1 where r: "search g [] (hd u) u = (found, u1)"
      by (cases "search g [] (hd u) u")
    from search_sound[OF 1(2), of "[]" "hd u" u] r have nf: "\<not> found" by simp
    from False 1(3) have c: "u \<noteq> [] \<and> \<not> h" by simp
    from 1(1)[OF c r[symmetric] refl 1(2) nf]
    have "\<not> graphHasCycles_loop g u1 found" .
    with False 1(3) r show ?thesis
      by (subst graphHasCycles_loop.simps) simp
  qed
qed

lemma graphHasCycles_sound:
  "acyclic (downstreamEdges g) \<Longrightarrow> \<not> graphHasCycles g"
  unfolding graphHasCycles_def by (rule graphHasCycles_loop_sound) simp_all

definition rankOf :: "GraphId \<Rightarrow> nat" where
  "rankOf gid = (if gid = toGraphId (keyOf ''A'') then 3
                 else if gid = toGraphId (keyOf ''D'') then 0 else 1)"

lemma diamond_acyclic: "acyclic (downstreamEdges (buildGraphData diamondDefs))"
proof (rule acyclicI_order [where f = rankOf])
  fix a b
  assume "(a, b) \<in> downstreamEdges (buildGraphData diamondDefs)"
  then have "\<exists>d\<in>set diamondDefs. declaredEdge d a b"
    by (simp add: downstreamEdges_def edgeIn_ds_buildGraphData)
  then show "rankOf b < rankOf a"
    by (auto simp: diamondDefs_def declaredEdge_def rankOf_def toGraphId_eval)
qed

text \<open>
  C2. The detector answers true on the two-node graph with edges A to B and B to A, false
  on every graph whose downstream index is acyclic, and so false on the diamond with
  edges A to B, A to C, B to D and C to D.
\<close>

theorem graphHasCycles_spec:
  "graphHasCycles (buildGraphData mutualDefs) \<and>
   (acyclic (downstreamEdges g) \<longrightarrow> \<not> graphHasCycles g) \<and>
   \<not> graphHasCycles (buildGraphData diamondDefs)"
proof (intro conjI impI)
  show "graphHasCycles (buildGraphData mutualDefs)" by code_simp
  show "\<not> graphHasCycles (buildGraphData diamondDefs)" by code_simp
  show "\<not> graphHasCycles g" if "acyclic (downstreamEdges g)"
    using that by (rule graphHasCycles_sound)
qed

theorem graphHasCycles_spec_witness:
  "acyclic (downstreamEdges (buildGraphData diamondDefs)) \<and>
   \<not> graphHasCycles (buildGraphData diamondDefs)"
  using graphHasCycles_spec [of "buildGraphData diamondDefs"] diamond_acyclic by simp

subsection \<open>Completeness: a graph that passes the detector has no cycle among its nodes\<close>

definition nodeKeys :: "GraphData \<Rightarrow> GraphId set" where
  "nodeKeys g = set (objectKeys (nodes g))"

text \<open>The downstream edges between ids of the node map.\<close>

definition innerEdges :: "GraphData \<Rightarrow> (GraphId \<times> GraphId) set" where
  "innerEdges g = {(a, b). a \<in> nodeKeys g \<and> b \<in> nodeKeys g \<and> edgeIn (downstream g) a b}"

text \<open>
  The ids whose search has ended: closed under inner edges, and none of them on a cycle.
\<close>

definition finishedOk :: "GraphData \<Rightarrow> GraphId set \<Rightarrow> bool" where
  "finishedOk g B \<longleftrightarrow>
     (\<forall>a b. a \<in> B \<and> (a, b) \<in> innerEdges g \<longrightarrow> b \<in> B) \<and>
     (\<forall>a\<in>B. (a, a) \<notin> (innerEdges g)\<^sup>+)"

lemma finishedOk_closed_trancl:
  assumes "finishedOk g B" and "(a, b) \<in> (innerEdges g)\<^sup>+" and "a \<in> B"
  shows "b \<in> B"
  using assms(2,3,1) by (induction rule: trancl_induct) (auto simp: finishedOk_def)

lemma finishedOk_insert:
  assumes ok: "finishedOk g B"
    and succ: "\<And>c. (v, c) \<in> innerEdges g \<Longrightarrow> c \<in> B"
    and v: "v \<notin> B"
  shows "finishedOk g (insert v B)"
proof -
  have "(v, v) \<notin> (innerEdges g)\<^sup>+"
  proof
    assume "(v, v) \<in> (innerEdges g)\<^sup>+"
    then obtain c where vc: "(v, c) \<in> innerEdges g" and cv: "(c, v) \<in> (innerEdges g)\<^sup>*"
      by (blast dest: tranclD)
    from vc have cB: "c \<in> B" by (rule succ)
    with v have "c \<noteq> v" by blast
    with cv have "(c, v) \<in> (innerEdges g)\<^sup>+" by (auto simp: rtrancl_eq_or_trancl)
    from finishedOk_closed_trancl [OF ok this cB] v show False by blast
  qed
  with ok succ show ?thesis
    unfolding finishedOk_def by blast
qed

lemma search_complete:
  "set u \<subseteq> nodeKeys g \<Longrightarrow> set stack \<inter> set u = {} \<Longrightarrow>
   finishedOk g (nodeKeys g - set u - set stack) \<Longrightarrow>
   search g stack node u = (False, u') \<Longrightarrow>
   set u' \<subseteq> set u \<and> finishedOk g (nodeKeys g - set u' - set stack) \<and>
   (node \<in> nodeKeys g \<longrightarrow> node \<in> nodeKeys g - set u' - set stack)"
  and searchSome_complete:
  "set u \<subseteq> nodeKeys g \<Longrightarrow> set stack \<inter> set u = {} \<Longrightarrow>
   finishedOk g (nodeKeys g - set u - set stack) \<Longrightarrow>
   searchSome g stack ns u = (False, u') \<Longrightarrow>
   set u' \<subseteq> set u \<and> finishedOk g (nodeKeys g - set u' - set stack) \<and>
   (\<forall>n\<in>set ns. n \<in> nodeKeys g \<longrightarrow> n \<in> nodeKeys g - set u' - set stack)"
proof (induction g stack node u and g stack ns u arbitrary: u' and u' rule: search_searchSome.induct)
  case (1 g stack node u)
  from 1(5) have notin: "node \<notin> set stack"
    by (auto simp: search.simps split: if_splits)
  show ?case
  proof (cases "node \<in> set u")
    case False
    with notin 1(5) have "u' = u" by (simp add: search.simps)
    with 1(2,4) False notin show ?thesis by auto
  next
    case True
    let ?children = "objectKeys (orEmpty (map_of (downstream g) node))"
    let ?B = "nodeKeys g - set u' - set (stack @ [node])"
    from True notin 1(5)
    have r: "searchSome g (stack @ [node]) ?children (removeAll node u) = (False, u')"
      by (simp add: search.simps)
    have p1: "set (removeAll node u) \<subseteq> nodeKeys g" using 1(2) by auto
    have p2: "set (stack @ [node]) \<inter> set (removeAll node u) = {}" using 1(3) by auto
    have "nodeKeys g - set (removeAll node u) - set (stack @ [node]) = nodeKeys g - set u - set stack"
      using True by auto
    with 1(4) have p3: "finishedOk g (nodeKeys g - set (removeAll node u) - set (stack @ [node]))"
      by simp
    from 1(1) [OF notin True p1 p2 p3 r]
    have sub: "set u' \<subseteq> set (removeAll node u)" and ok: "finishedOk g ?B"
      and ch: "\<forall>n\<in>set ?children. n \<in> nodeKeys g \<longrightarrow> n \<in> ?B"
      by blast+
    from sub have sub': "set u' \<subseteq> set u" and nu: "node \<notin> set u'" by auto
    from True 1(2) have nK: "node \<in> nodeKeys g" by blast
    have eq: "nodeKeys g - set u' - set stack = insert node ?B"
      using nK nu notin by auto
    have "finishedOk g (insert node ?B)"
    proof (rule finishedOk_insert [OF ok])
      fix c assume "(node, c) \<in> innerEdges g"
      then have "c \<in> nodeKeys g" and "c \<in> set ?children"
        by (auto simp: innerEdges_def edgeIn_def objectKeys_def)
      with ch show "c \<in> ?B" by blast
    next
      show "node \<notin> ?B" by simp
    qed
    with eq sub' nK nu notin show ?thesis by auto
  qed
next
  case (2 g stack u)
  then show ?case by simp
next
  case (3 g stack n rest u)
  obtain found u1 where r: "search g stack n u = (found, u1)"
    by (cases "search g stack n u")
  with 3(6) have nf: "\<not> found" and r2: "searchSome g stack rest u1 = (False, u')"
    by (auto simp: searchSome.simps(2) split: if_splits)
  from r nf have r1: "search g stack n u = (False, u1)" by simp
  from 3(1) [OF 3(3,4,5) r1]
  have s1: "set u1 \<subseteq> set u" and ok1: "finishedOk g (nodeKeys g - set u1 - set stack)"
    and n1: "n \<in> nodeKeys g \<longrightarrow> n \<in> nodeKeys g - set u1 - set stack"
    by blast+
  from s1 3(3) have p1: "set u1 \<subseteq> nodeKeys g" by blast
  from s1 3(4) have p2: "set stack \<inter> set u1 = {}" by blast
  from 3(2) [OF r[symmetric] refl nf p1 p2 ok1 r2]
  have s2: "set u' \<subseteq> set u1" and ok2: "finishedOk g (nodeKeys g - set u' - set stack)"
    and n2: "\<forall>m\<in>set rest. m \<in> nodeKeys g \<longrightarrow> m \<in> nodeKeys g - set u' - set stack"
    by blast+
  from s1 s2 ok2 n1 n2 show ?case by auto
qed

lemma graphHasCycles_loop_complete:
  "set u \<subseteq> nodeKeys g \<Longrightarrow> finishedOk g (nodeKeys g - set u) \<Longrightarrow> \<not> h \<Longrightarrow>
   \<not> graphHasCycles_loop g u h \<Longrightarrow> finishedOk g (nodeKeys g)"
proof (induction g u h rule: graphHasCycles_loop.induct)
  case (1 g u h)
  show ?case
  proof (cases "u = []")
    case True
    with 1(3) show ?thesis by simp
  next
    case False
    obtain found u1 where r: "search g [] (hd u) u = (found, u1)"
      by (cases "search g [] (hd u) u")
    from False 1(4) have c: "u \<noteq> [] \<and> \<not> h" by simp
    from 1(5) False 1(4) r have loop: "\<not> graphHasCycles_loop g u1 found"
      by (subst (asm) graphHasCycles_loop.simps) simp
    have nf: "\<not> found"
    proof
      assume "found"
      then have "graphHasCycles_loop g u1 found"
        by (subst graphHasCycles_loop.simps) simp
      with loop show False by blast
    qed
    with r have r1: "search g [] (hd u) u = (False, u1)" by simp
    from search_complete [OF 1(2) _ _ r1] 1(3)
    have s: "set u1 \<subseteq> set u" and ok: "finishedOk g (nodeKeys g - set u1)"
      by simp_all
    from s 1(2) have p: "set u1 \<subseteq> nodeKeys g" by blast
    from 1(1) [OF c r[symmetric] refl p ok nf loop] show ?thesis .
  qed
qed

lemma graphHasCycles_complete:
  assumes "\<not> graphHasCycles g"
  shows "acyclic (innerEdges g)"
proof -
  have "finishedOk g (nodeKeys g)"
  proof (rule graphHasCycles_loop_complete)
    show "set (newSet (objectKeys (nodes g))) \<subseteq> nodeKeys g"
      by (simp add: nodeKeys_def)
    show "finishedOk g (nodeKeys g - set (newSet (objectKeys (nodes g))))"
      by (simp add: nodeKeys_def finishedOk_def)
    show "\<not> False" by simp
    from assms show "\<not> graphHasCycles_loop g (newSet (objectKeys (nodes g))) False"
      by (simp add: graphHasCycles_def)
  qed
  then have k: "\<forall>a\<in>nodeKeys g. (a, a) \<notin> (innerEdges g)\<^sup>+"
    by (simp add: finishedOk_def)
  show ?thesis
    unfolding acyclic_def
  proof (intro allI notI)
    fix a assume c: "(a, a) \<in> (innerEdges g)\<^sup>+"
    then obtain b where "(a, b) \<in> innerEdges g" by (blast dest: tranclD)
    then have "a \<in> nodeKeys g" by (simp add: innerEdges_def)
    with k c show False by blast
  qed
qed

section \<open>Live data merger\<close>

text \<open>
  Modelled from the spec: the enum \<^verbatim>\<open>RunStatus\<close> of \<^verbatim>\<open>types/globalTypes\<close> and the generated
  query types of \<^verbatim>\<open>types/AssetGraphLiveQuery\<close> are imported by the code but are not among the
  source files. The members of \<^verbatim>\<open>RunStatus\<close> are those the code and the spec name; any member
  beyond them is \<open>OTHER\<close>. The records hold the fields that \<^verbatim>\<open>buildLiveDataForNode\<close> reads;
  the freshness policy and info are passed through unread, so their types are parameters.
  The fields \<^verbatim>\<open>id\<close> and \<^verbatim>\<open>status\<close> of the latest run are primed, the plain names being taken.
\<close>

datatype RunStatus = CANCELED | CANCELING | FAILURE | QUEUED | STARTED | SUCCESS | OTHER string

record LatestRun =
  id' :: string
  status' :: RunStatus

record AssetEvent =
  runId :: string
  timestamp :: string

record ('policy, 'info) AssetLiveNode =
  liveAssetKey :: AssetKey
  liveOpNames :: "string list"
  assetMaterializations :: "AssetEvent list"
  assetObservations :: "AssetEvent list"
  nodeFreshnessPolicy :: "'policy option"
  nodeFreshnessInfo :: "'info option"
  nodeCurrentLogicalVersion :: "string option"
  nodeProjectedLogicalVersion :: "string option"

record AssetLatestInfo =
  infoAssetKey :: AssetKey
  latestRun :: "LatestRun option"
  infoUnstartedRunIds :: "string list"
  infoInProgressRunIds :: "string list"

text \<open>
  \<^verbatim>\<open>LiveDataForNode\<close>. The interface declares \<^verbatim>\<open>stepKey: string\<close>, but the value stored is
  \<^verbatim>\<open>assetNode.opNames[0]\<close>, which is \<^verbatim>\<open>undefined\<close> when the array is empty: the field is an
  option here, \<open>None\<close> standing for \<^verbatim>\<open>undefined\<close>.
\<close>

record ('policy, 'info) LiveDataForNode =
  stepKey :: "string option"
  unstartedRunIds :: "string list"
  inProgressRunIds :: "string list"
  runWhichFailedToMaterialize :: "LatestRun option"
  lastMaterialization :: "AssetEvent option"
  lastMaterializationRunStatus :: "RunStatus option"
  freshnessPolicy :: "'policy option"
  freshnessInfo :: "'info option"
  lastObservation :: "AssetEvent option"
  currentLogicalVersion :: "string option"
  projectedLogicalVersion :: "string option"

text \<open>\<^verbatim>\<open>xs[0]\<close>: the first element, \<^verbatim>\<open>undefined\<close> on an empty array (no exception).\<close>

definition firstElement :: "'a list \<Rightarrow> 'a option" where
  "firstElement xs = (case xs of [] \<Rightarrow> None | x # _ \<Rightarrow> Some x)"

definition buildLiveDataForNode ::
  "('policy, 'info) AssetLiveNode \<Rightarrow> AssetLatestInfo option \<Rightarrow> ('policy, 'info) LiveDataForNode" where
  "buildLiveDataForNode assetNode assetLatestInfo =
     (let lastMaterialization0 = firstElement (assetMaterializations assetNode);
          lastObservation0 = firstElement (assetObservations assetNode);
          latestRunForAsset =
            (case assetLatestInfo of None \<Rightarrow> None | Some info \<Rightarrow> latestRun info);
          runWhichFailedToMaterialize0 =
            (case latestRunForAsset of
               None \<Rightarrow> None
             | Some run \<Rightarrow>
                 if status' run = FAILURE \<and>
                    (case lastMaterialization0 of
                       None \<Rightarrow> True
                     | Some m \<Rightarrow> runId m \<noteq> id' run)
                 then Some run else None)
      in \<lparr>stepKey = firstElement (liveOpNames assetNode),
          unstartedRunIds =
            (case assetLatestInfo of None \<Rightarrow> [] | Some info \<Rightarrow> infoUnstartedRunIds info),
          inProgressRunIds =
            (case assetLatestInfo of None \<Rightarrow> [] | Some info \<Rightarrow> infoInProgressRunIds info),
          runWhichFailedToMaterialize = runWhichFailedToMaterialize0,
          lastMaterialization = lastMaterialization0,
          lastMaterializationRunStatus =
            (case latestRunForAsset of
               None \<Rightarrow> None
             | Some run \<Rightarrow>
                 if (case lastMaterialization0 of
                       None \<Rightarrow> False
                     | Some m \<Rightarrow> runId m = id' run)
                 then Some (status' run) else None),
          freshnessPolicy = nodeFreshnessPolicy assetNode,
          freshnessInfo = nodeFreshnessInfo assetNode,
          lastObservation = lastObservation0,
          currentLogicalVersion = nodeCurrentLogicalVersion assetNode,
          projectedLogicalVersion = nodeProjectedLogicalVersion assetNode\<rparr>)"

text \<open>The latest run of the optional latest-run info, and the newest materialization.\<close>

definition latestRunOf :: "AssetLatestInfo option \<Rightarrow> LatestRun option" where
  "latestRunOf assetLatestInfo = (case assetLatestInfo of None \<Rightarrow> None | Some info \<Rightarrow> latestRun info)"

text \<open>
  C3. In the record built for a live snapshot and an optional latest-run info: the run
  which failed to materialize is the latest run exactly when there is a latest run, its
  status is failure, and there is no last materialization or that materialization's run
  id differs from the latest run's id, and is none otherwise; the last materialization's
  run status is the latest run's status exactly when there is a latest run and a last
  materialization whose run id is the latest run's id, and is none otherwise; the two
  fields are never both set.
\<close>

theorem buildLiveDataForNode_run_fields:
  "(let r = buildLiveDataForNode assetNode assetLatestInfo;
        failedAndNotMaterialized = (\<lambda>run.
          latestRunOf assetLatestInfo = Some run \<and> status' run = FAILURE \<and>
          (lastMaterialization r = None \<or>
           (\<exists>m. lastMaterialization r = Some m \<and> runId m \<noteq> id' run)));
        materializedBy = (\<lambda>run.
          latestRunOf assetLatestInfo = Some run \<and>
          (\<exists>m. lastMaterialization r = Some m \<and> runId m = id' run))
    in lastMaterialization r = firstElement (assetMaterializations assetNode) \<and>
       (\<forall>run. runWhichFailedToMaterialize r = Some run \<longleftrightarrow> failedAndNotMaterialized run) \<and>
       (runWhichFailedToMaterialize r = None \<longleftrightarrow> \<not> (\<exists>run. failedAndNotMaterialized run)) \<and>
       (\<forall>s. lastMaterializationRunStatus r = Some s \<longleftrightarrow>
              (\<exists>run. materializedBy run \<and> s = status' run)) \<and>
       (lastMaterializationRunStatus r = None \<longleftrightarrow> \<not> (\<exists>run. materializedBy run)) \<and>
       (runWhichFailedToMaterialize r = None \<or> lastMaterializationRunStatus r = None))"
  by (auto simp: buildLiveDataForNode_def latestRunOf_def Let_def split: option.splits)

definition failedRunInfo :: AssetLatestInfo where
  "failedRunInfo =
     \<lparr>infoAssetKey = keyOf ''A'', latestRun = Some \<lparr>id' = ''run2'', status' = FAILURE\<rparr>,
      infoUnstartedRunIds = [], infoInProgressRunIds = []\<rparr>"

definition succeededRunInfo :: AssetLatestInfo where
  "succeededRunInfo =
     \<lparr>infoAssetKey = keyOf ''A'', latestRun = Some \<lparr>id' = ''run1'', status' = SUCCESS\<rparr>,
      infoUnstartedRunIds = [], infoInProgressRunIds = []\<rparr>"

definition neverMaterialized :: "(unit, unit) AssetLiveNode" where
  "neverMaterialized =
     \<lparr>liveAssetKey = keyOf ''A'', liveOpNames = [''a''], assetMaterializations = [],
      assetObservations = [], nodeFreshnessPolicy = None, nodeFreshnessInfo = None,
      nodeCurrentLogicalVersion = None, nodeProjectedLogicalVersion = None\<rparr>"

definition materializedByRun1 :: "(unit, unit) AssetLiveNode" where
  "materializedByRun1 =
     neverMaterialized\<lparr>assetMaterializations := [\<lparr>runId = ''run1'', timestamp = ''1''\<rparr>]\<rparr>"

text \<open>
  The two cases of the specification: a failed latest run and no materialization; a
  successful latest run that produced the last materialization.
\<close>

theorem buildLiveDataForNode_run_fields_witness:
  "runWhichFailedToMaterialize (buildLiveDataForNode neverMaterialized (Some failedRunInfo))
     = Some \<lparr>id' = ''run2'', status' = FAILURE\<rparr> \<and>
   lastMaterializationRunStatus (buildLiveDataForNode neverMaterialized (Some failedRunInfo)) = None \<and>
   lastMaterializationRunStatus (buildLiveDataForNode materializedByRun1 (Some succeededRunInfo))
     = Some SUCCESS \<and>
   runWhichFailedToMaterialize (buildLiveDataForNode materializedByRun1 (Some succeededRunInfo)) = None"
  using buildLiveDataForNode_run_fields [of neverMaterialized "Some failedRunInfo"]
    buildLiveDataForNode_run_fields [of materializedByRun1 "Some succeededRunInfo"]
  by (simp add: Let_def latestRunOf_def failedRunInfo_def succeededRunInfo_def
      neverMaterialized_def materializedByRun1_def firstElement_def)

text \<open>
  C4. The step key is the first declared op name. On an asset with no op names the read
  \<^verbatim>\<open>opNames[0]\<close> does not throw, but its value is \<^verbatim>\<open>undefined\<close> and not the empty
  string that the interface (\<^verbatim>\<open>stepKey: string\<close>) and \<^verbatim>\<open>MISSING_LIVE_DATA\<close> promise.
\<close>

theorem buildLiveDataForNode_stepKey:
  "stepKey (buildLiveDataForNode (assetNode\<lparr>liveOpNames := []\<rparr>) assetLatestInfo) = None \<and>
   stepKey (buildLiveDataForNode (assetNode\<lparr>liveOpNames := []\<rparr>) assetLatestInfo) \<noteq> Some [] \<and>
   stepKey (buildLiveDataForNode (assetNode\<lparr>liveOpNames := opName # others\<rparr>) assetLatestInfo)
     = Some opName"
  by (simp add: buildLiveDataForNode_def firstElement_def Let_def)

section \<open>Topology queries\<close>

text \<open>
  \<^verbatim>\<open>[...Object.keys(graph.downstream[id] || {})].map((n) => graph.nodes[n]).filter(Boolean)\<close>:
  the downstream neighbours that are present in the node map, in key order.
\<close>

definition downstreamNodes :: "GraphData \<Rightarrow> GraphId \<Rightarrow> GraphNode list" where
  "downstreamNodes graph gid =
     List.map_filter (\<lambda>n. map_of (nodes graph) n)
       (objectKeys (orEmpty (map_of (downstream graph) gid)))"

datatype Direction = Downstream | Upstream

text \<open>
  \<^verbatim>\<open>graphDirectionOf\<close> pops the last node of a stack and pushes its neighbours, with no record
  of the nodes already expanded; the loop need not end, so it is a partial function and
  \<open>None\<close> is the run that never returns.
\<close>

partial_function (option) graphDirectionOf_loop ::
  "GraphData \<Rightarrow> GraphNode \<Rightarrow> GraphNode list \<Rightarrow> Direction option" where
  "graphDirectionOf_loop graph to stack =
     (if stack = [] then Some Upstream
      else
        let node = last stack;
            stack1 = butlast stack;
            ds = downstreamNodes graph (nodeId node)
        in if \<exists>d\<in>set ds. nodeId d = nodeId to then Some Downstream
           else graphDirectionOf_loop graph to (stack1 @ ds))"

declare graphDirectionOf_loop.simps [code]

definition graphDirectionOf :: "GraphData \<Rightarrow> GraphNode \<Rightarrow> GraphNode \<Rightarrow> Direction option" where
  "graphDirectionOf graph from to = graphDirectionOf_loop graph to [from]"

text \<open>\<^verbatim>\<open>uniq\<close> of lodash: the first occurrence of each value, in order.\<close>

definition uniq :: "'a list \<Rightarrow> 'a list" where
  "uniq xs = newSet xs"

text \<open>The ids carried by the nodes of the node map.\<close>

definition nodeIds :: "GraphData \<Rightarrow> GraphId set" where
  "nodeIds graph = nodeId ` snd ` set (nodes graph)"

lemma set_map_filter_iff:
  "x \<in> set (List.map_filter f xs) \<longleftrightarrow> (\<exists>a\<in>set xs. f a = Some x)"
  by (induction xs) (auto simp: map_filter_simps split: option.splits)

lemma downstreamNodes_iff:
  "node \<in> set (downstreamNodes graph gid) \<longleftrightarrow>
     (\<exists>n. edgeIn (downstream graph) gid n \<and> map_of (nodes graph) n = Some node)"
  by (auto simp: downstreamNodes_def set_map_filter_iff edgeIn_def objectKeys_def)

lemma downstreamNodes_in_map:
  "node \<in> set (downstreamNodes graph gid) \<Longrightarrow> node \<in> snd ` set (nodes graph)"
  by (auto simp: downstreamNodes_iff dest!: map_of_SomeD intro: rev_image_eqI)

lemma downstreamNodes_nodeIds:
  "node \<in> set (downstreamNodes graph gid) \<Longrightarrow> nodeId node \<in> nodeIds graph"
  unfolding nodeIds_def by (blast dest: downstreamNodes_in_map)

text \<open>
  \<^verbatim>\<open>opsInRange\<close>. \<^verbatim>\<open>from\<close> may be null. The direction is asked for only when \<^verbatim>\<open>seen\<close> is
  empty (the outermost call); if that search does not return, neither does this call.
\<close>

function opsInRange ::
  "GraphData \<Rightarrow> GraphNode option \<Rightarrow> GraphNode \<Rightarrow> GraphId list \<Rightarrow> string list option" where
  "opsInRange graph fromOpt to seen =
     (case fromOpt of
        None \<Rightarrow> Some []
      | Some from \<Rightarrow>
          if nodeId from = nodeId to then Some (opNames (nodeDefinition to))
          else
            (case (if seen = [] then map_option (\<lambda>d. d = Upstream) (graphDirectionOf graph from to)
                   else Some False) of
               None \<Rightarrow> None
             | Some swap \<Rightarrow>
                 let from1 = (if swap then to else from);
                     to1 = (if swap then from else to);
                     ds = downstreamNodes graph (nodeId from1)
                 in map_option (\<lambda>ledToTarget. uniq (concat ledToTarget))
                      (those (map (\<lambda>node.
                         if nodeId node \<in> set seen then Some []
                         else
                           (case opsInRange graph (Some node) to1 (seen @ [nodeId from1]) of
                              None \<Rightarrow> None
                            | Some result \<Rightarrow>
                                if result \<noteq> [] then Some (opNames (nodeDefinition from1) @ result)
                                else Some [])) ds))))"
  by pat_completeness auto
termination opsInRange
proof (relation "measures
     [\<lambda>(graph, fromOpt, to, seen). if seen = [] then 1 else 0,
      \<lambda>(graph, fromOpt, to, seen).
         (case fromOpt of None \<Rightarrow> 0
          | Some from \<Rightarrow> card (nodeIds graph - (insert (nodeId from) (set seen)))),
      \<lambda>(graph, fromOpt, to, seen).
         (case fromOpt of None \<Rightarrow> 0
          | Some from \<Rightarrow> if nodeId from \<in> set seen then 0 else 1)]", goal_cases)
  case 1
  then show ?case by simp
next
  case (2 graph fromOpt target seen frm swap from1 to1 ds node)
  show ?case
  proof (cases "seen = []")
    case True
    then show ?thesis by simp
  next
    case False
    with 2(3) have sw: "\<not> swap" by simp
    with 2(4,6,7) have "node \<in> set (downstreamNodes graph (nodeId frm))" by simp
    then have inI: "nodeId node \<in> nodeIds graph" by (rule downstreamNodes_nodeIds)
    have fin: "finite (nodeIds graph - insert (nodeId frm) (set seen))"
      by (simp add: nodeIds_def)
    show ?thesis
    proof (cases "nodeId node = nodeId frm")
      case True
      with 2(1,4,8) False sw show ?thesis by (simp add: insert_absorb)
    next
      case ne: False
      have "nodeIds graph - insert (nodeId node) (insert (nodeId frm) (set seen))
              \<subset> nodeIds graph - insert (nodeId frm) (set seen)"
        using inI ne 2(8) by auto
      with fin have "card (nodeIds graph - insert (nodeId node) (insert (nodeId frm) (set seen)))
              < card (nodeIds graph - insert (nodeId frm) (set seen))"
        by (rule psubset_card_mono)
      with 2(1,4) False sw show ?thesis by simp
    qed
  qed
qed

declare opsInRange.simps [simp del]

definition chainDefs :: "AssetNode list" where
  "chainDefs =
     [\<lparr>assetKey = keyOf ''A'', dependencyKeys = [], dependedByKeys = [keyOf ''B''], opNames = [''a'']\<rparr>,
      \<lparr>assetKey = keyOf ''B'', dependencyKeys = [keyOf ''A''], dependedByKeys = [keyOf ''C''], opNames = [''b'']\<rparr>,
      \<lparr>assetKey = keyOf ''C'', dependencyKeys = [keyOf ''B''], dependedByKeys = [keyOf ''D''], opNames = [''c'']\<rparr>,
      \<lparr>assetKey = keyOf ''D'', dependencyKeys = [keyOf ''C''], dependedByKeys = [], opNames = [''d'']\<rparr>]"

text \<open>\<^verbatim>\<open>graph.nodes[toGraphId(key)]\<close>\<close>

definition nodeOfKey :: "GraphData \<Rightarrow> AssetKey \<Rightarrow> GraphNode option" where
  "nodeOfKey graph key = map_of (nodes graph) (toGraphId key)"

subsection \<open>Reachability along the downstream index, through nodes of the node map\<close>

definition walk :: "GraphData \<Rightarrow> (GraphNode \<times> GraphNode) set" where
  "walk graph = {(a, b). b \<in> set (downstreamNodes graph (nodeId a))}"

definition reaches :: "GraphData \<Rightarrow> GraphNode \<Rightarrow> GraphNode \<Rightarrow> bool" where
  "reaches graph a target \<longleftrightarrow> (\<exists>b. (a, b) \<in> (walk graph)\<^sup>+ \<and> nodeId b = nodeId target)"

lemma reaches_unfold:
  "reaches graph a target \<longleftrightarrow>
     (\<exists>d\<in>set (downstreamNodes graph (nodeId a)). nodeId d = nodeId target \<or> reaches graph d target)"
proof
  assume "reaches graph a target"
  then obtain b where ab: "(a, b) \<in> (walk graph)\<^sup>+" and b: "nodeId b = nodeId target"
    by (auto simp: reaches_def)
  from ab obtain d where ad: "(a, d) \<in> walk graph" and db: "(d, b) \<in> (walk graph)\<^sup>*"
    by (blast dest: tranclD)
  from db have "d = b \<or> (d, b) \<in> (walk graph)\<^sup>+"
    by (auto simp: rtrancl_eq_or_trancl)
  with ad b show "\<exists>d\<in>set (downstreamNodes graph (nodeId a)). nodeId d = nodeId target \<or> reaches graph d target"
    by (auto simp: walk_def reaches_def)
next
  assume "\<exists>d\<in>set (downstreamNodes graph (nodeId a)). nodeId d = nodeId target \<or> reaches graph d target"
  then obtain d where ad: "(a, d) \<in> walk graph"
    and d: "nodeId d = nodeId target \<or> reaches graph d target"
    by (auto simp: walk_def)
  from d show "reaches graph a target"
  proof
    assume "nodeId d = nodeId target"
    with ad show ?thesis unfolding reaches_def by blast
  next
    assume "reaches graph d target"
    then obtain b where "(d, b) \<in> (walk graph)\<^sup>+" "nodeId b = nodeId target"
      by (auto simp: reaches_def)
    with ad show ?thesis unfolding reaches_def by (blast intro: trancl_into_trancl2)
  qed
qed

text \<open>The walk relation between nodes of the map, child first: well-founded on an acyclic graph.\<close>

definition childOf :: "GraphData \<Rightarrow> (GraphNode \<times> GraphNode) set" where
  "childOf graph = {(b, a). (a, b) \<in> walk graph \<and> a \<in> snd ` set (nodes graph) \<and> b \<in> snd ` set (nodes graph)}"

lemma wf_childOf:
  assumes "acyclic (walk graph)"
  shows "wf (childOf graph)"
proof (rule finite_acyclic_wf)
  have "childOf graph \<subseteq> snd ` set (nodes graph) \<times> snd ` set (nodes graph)"
    by (auto simp: childOf_def)
  then show "finite (childOf graph)"
    by (rule finite_subset) simp
  have "childOf graph \<subseteq> (walk graph)\<inverse>"
    by (auto simp: childOf_def)
  moreover from assms have "acyclic ((walk graph)\<inverse>)" by simp
  ultimately show "acyclic (childOf graph)" by (rule acyclic_subset[rotated])
qed

lemma graphDirectionOf_loop_acyclic:
  assumes ac: "acyclic (walk graph)"
  shows "set stack \<subseteq> snd ` set (nodes graph) \<Longrightarrow>
         graphDirectionOf_loop graph target stack =
           Some (if \<exists>s\<in>set stack. reaches graph s target then Downstream else Upstream)"
proof (induction stack rule: wf_induct_rule [OF wf_inv_image [OF wf_mult1 [OF wf_childOf [OF ac]], of mset]])
  case (1 stack)
  show ?case
  proof (cases "stack = []")
    case True
    then show ?thesis by (simp add: graphDirectionOf_loop.simps)
  next
    case False
    define node where "node = last stack"
    define ds where "ds = downstreamNodes graph (nodeId node)"
    from False have stack: "stack = butlast stack @ [node]" by (simp add: node_def)
    then have setstack: "set stack = insert node (set (butlast stack))"
      by (metis Un_insert_right append_Nil2 list.simps(15) set_append)
    from setstack 1(2) have nodeV: "node \<in> snd ` set (nodes graph)" by blast
    have dsV: "set ds \<subseteq> snd ` set (nodes graph)"
      unfolding ds_def by (blast dest: downstreamNodes_in_map)
    show ?thesis
    proof (cases "\<exists>d\<in>set ds. nodeId d = nodeId target")
      case True
      then have "reaches graph node target"
        by (subst reaches_unfold) (auto simp: ds_def)
      with setstack have "\<exists>s\<in>set stack. reaches graph s target" by blast
      with True False show ?thesis
        by (subst graphDirectionOf_loop.simps) (simp add: Let_def ds_def node_def)
    next
      case nomatch: False
      have "mset stack = add_mset node (mset (butlast stack))"
        by (subst stack) simp
      moreover have "mset (butlast stack @ ds) = mset (butlast stack) + mset ds" by simp
      moreover have "\<forall>b. b \<in># mset ds \<longrightarrow> (b, node) \<in> childOf graph"
        using nodeV dsV by (auto simp: childOf_def walk_def ds_def)
      ultimately have "(mset (butlast stack @ ds), mset stack) \<in> mult1 (childOf graph)"
        unfolding mult1_def by blast
      then have smaller: "(butlast stack @ ds, stack) \<in> inv_image (mult1 (childOf graph)) mset"
        by simp
      have sub: "set (butlast stack @ ds) \<subseteq> snd ` set (nodes graph)"
        using dsV setstack 1(2) by auto
      have "(\<exists>s\<in>set (butlast stack @ ds). reaches graph s target)
              \<longleftrightarrow> (\<exists>s\<in>set stack. reaches graph s target)"
        using nomatch reaches_unfold [of graph node target] setstack
        by (auto simp: ds_def)
      with 1(1) [OF smaller sub] nomatch False show ?thesis
        by (subst graphDirectionOf_loop.simps) (simp add: Let_def ds_def node_def)
    qed
  qed
qed

lemma graphDirectionOf_on_acyclic:
  assumes "acyclic (walk graph)"
  shows "graphDirectionOf graph frm target =
           Some (if reaches graph frm target then Downstream else Upstream)"
proof -
  define ds where "ds = downstreamNodes graph (nodeId frm)"
  have dsV: "set ds \<subseteq> snd ` set (nodes graph)"
    unfolding ds_def by (blast dest: downstreamNodes_in_map)
  show ?thesis
  proof (cases "\<exists>d\<in>set ds. nodeId d = nodeId target")
    case True
    then have "reaches graph frm target"
      by (subst reaches_unfold) (auto simp: ds_def)
    with True show ?thesis
      unfolding graphDirectionOf_def
      by (subst graphDirectionOf_loop.simps) (simp add: Let_def ds_def)
  next
    case False
    then have "(\<exists>s\<in>set ds. reaches graph s target) \<longleftrightarrow> reaches graph frm target"
      using reaches_unfold [of graph frm target] by (auto simp: ds_def)
    with graphDirectionOf_loop_acyclic [OF assms dsV, of target] False show ?thesis
      unfolding graphDirectionOf_def
      by (subst graphDirectionOf_loop.simps) (simp add: Let_def ds_def)
  qed
qed

subsection \<open>Graphs built by \<^const>\<open>buildGraphData\<close> are keyed by the ids of their nodes\<close>

definition wellKeyed :: "GraphData \<Rightarrow> bool" where
  "wellKeyed graph \<longleftrightarrow> (\<forall>(k, n)\<in>set (nodes graph). nodeId n = k)"

text \<open>The node object that \<^const>\<open>addDefinition\<close> stores for a definition.\<close>

definition graphNode :: "AssetNode \<Rightarrow> GraphNode" where
  "graphNode defn =
     \<lparr>nodeId = toGraphId (assetKey defn), nodeAssetKey = assetKey defn, nodeDefinition = defn\<rparr>"

lemma set_update_subset: "set (AList.update k v al) \<subseteq> insert (k, v) (set al)"
  by (induction al) auto

lemma nodes_addEdge [simp]: "nodes (addEdge u d data) = nodes data"
  by (simp add: addEdge_def Let_def)

lemma nodes_fold_addEdge_deps [simp]:
  "nodes (fold (\<lambda>key. addEdge (f key) gid) ks data) = nodes data"
  by (induction ks arbitrary: data) simp_all

lemma nodes_fold_addEdge_dby [simp]:
  "nodes (fold (\<lambda>key. addEdge gid (f key)) ks data) = nodes data"
  by (induction ks arbitrary: data) simp_all

lemma wellKeyed_addDefinition:
  "wellKeyed data \<Longrightarrow> wellKeyed (addDefinition defn data)"
  unfolding wellKeyed_def addDefinition_def Let_def
  using set_update_subset by (fastforce simp: case_prod_beta)

lemma wellKeyed_fold: "wellKeyed data \<Longrightarrow> wellKeyed (fold addDefinition ds data)"
  by (induction ds arbitrary: data) (simp_all add: wellKeyed_addDefinition)

lemma wellKeyed_buildGraphData: "wellKeyed (buildGraphData ds)"
  unfolding buildGraphData_def
  by (rule wellKeyed_fold) (simp add: wellKeyed_def emptyGraphData_def)

lemma walk_downstreamEdges:
  assumes "wellKeyed graph" and "(a, b) \<in> walk graph"
  shows "(nodeId a, nodeId b) \<in> downstreamEdges graph"
proof -
  from assms(2) obtain n where e: "edgeIn (downstream graph) (nodeId a) n"
    and n: "map_of (nodes graph) n = Some b"
    by (auto simp: walk_def downstreamNodes_iff)
  from n have "(n, b) \<in> set (nodes graph)" by (rule map_of_SomeD)
  with assms(1) have "nodeId b = n" by (auto simp: wellKeyed_def)
  with e show ?thesis by (simp add: downstreamEdges_def)
qed

lemma walk_trancl_downstreamEdges:
  assumes "wellKeyed graph" and "(a, b) \<in> (walk graph)\<^sup>+"
  shows "(nodeId a, nodeId b) \<in> (downstreamEdges graph)\<^sup>+"
  using assms(2)
proof (induction rule: trancl_induct)
  case (base y)
  then show ?case using walk_downstreamEdges [OF assms(1)] by blast
next
  case (step y z)
  then show ?case using walk_downstreamEdges [OF assms(1)] by (blast intro: trancl_into_trancl)
qed

lemma acyclic_walk:
  assumes "wellKeyed graph" and "acyclic (downstreamEdges graph)"
  shows "acyclic (walk graph)"
  unfolding acyclic_def
proof (intro allI notI)
  fix a
  assume "(a, a) \<in> (walk graph)\<^sup>+"
  then have "(nodeId a, nodeId a) \<in> (downstreamEdges graph)\<^sup>+"
    by (rule walk_trancl_downstreamEdges [OF assms(1)])
  with assms(2) show False by (simp add: acyclic_def)
qed

lemma walk_innerEdges:
  assumes "wellKeyed graph" and "a \<in> snd ` set (nodes graph)" and "(a, b) \<in> walk graph"
  shows "(nodeId a, nodeId b) \<in> innerEdges graph \<and> b \<in> snd ` set (nodes graph)"
proof -
  from assms(3) obtain n where e: "edgeIn (downstream graph) (nodeId a) n"
    and n: "map_of (nodes graph) n = Some b"
    by (auto simp: walk_def downstreamNodes_iff)
  from n have nb: "(n, b) \<in> set (nodes graph)" by (rule map_of_SomeD)
  with assms(1) have idb: "nodeId b = n" by (auto simp: wellKeyed_def)
  from nb have bK: "n \<in> nodeKeys graph" by (force simp: nodeKeys_def objectKeys_def)
  from assms(2) obtain k where ka: "(k, a) \<in> set (nodes graph)" by auto
  with assms(1) have "nodeId a = k" by (auto simp: wellKeyed_def)
  with ka have aK: "nodeId a \<in> nodeKeys graph" by (force simp: nodeKeys_def objectKeys_def)
  from nb have "b \<in> snd ` set (nodes graph)" by force
  with e idb aK bK show ?thesis by (simp add: innerEdges_def)
qed

lemma walk_trancl_innerEdges:
  assumes "wellKeyed graph" and "a \<in> snd ` set (nodes graph)" and "(a, b) \<in> (walk graph)\<^sup>+"
  shows "(nodeId a, nodeId b) \<in> (innerEdges graph)\<^sup>+ \<and> b \<in> snd ` set (nodes graph)"
  using assms(3)
proof (induction rule: trancl_induct)
  case (base y)
  with walk_innerEdges [OF assms(1,2)] show ?case by blast
next
  case (step y z)
  with walk_innerEdges [OF assms(1), of y z] show ?case
    by (blast intro: trancl_into_trancl)
qed

lemma acyclic_walk_inner:
  assumes "wellKeyed graph" and "acyclic (innerEdges graph)"
  shows "acyclic (walk graph)"
  unfolding acyclic_def
proof (intro allI notI)
  fix a
  assume c: "(a, a) \<in> (walk graph)\<^sup>+"
  then obtain p where "(p, a) \<in> walk graph" by (blast elim: tranclE)
  then have "a \<in> snd ` set (nodes graph)"
    by (auto simp: walk_def dest: downstreamNodes_in_map)
  from walk_trancl_innerEdges [OF assms(1) this c] assms(2) show False
    by (simp add: acyclic_def)
qed

text \<open>The graphs the explorer goes on with: keyed by node id, and passed by the detector.\<close>

lemma passed_acyclic_walk:
  "wellKeyed graph \<Longrightarrow> \<not> graphHasCycles graph \<Longrightarrow> acyclic (walk graph)"
  by (blast intro: acyclic_walk_inner graphHasCycles_complete)

lemma diamond_walk_acyclic: "acyclic (walk (buildGraphData diamondDefs))"
  by (rule acyclic_walk [OF wellKeyed_buildGraphData diamond_acyclic])

definition chainRank :: "GraphId \<Rightarrow> nat" where
  "chainRank gid = (if gid = toGraphId (keyOf ''A'') then 3
                    else if gid = toGraphId (keyOf ''B'') then 2
                    else if gid = toGraphId (keyOf ''C'') then 1 else 0)"

lemma chain_acyclic: "acyclic (downstreamEdges (buildGraphData chainDefs))"
proof (rule acyclicI_order [where f = chainRank])
  fix a b
  assume "(a, b) \<in> downstreamEdges (buildGraphData chainDefs)"
  then have "\<exists>d\<in>set chainDefs. declaredEdge d a b"
    by (simp add: downstreamEdges_def edgeIn_ds_buildGraphData)
  then show "chainRank b < chainRank a"
    by (auto simp: chainDefs_def declaredEdge_def chainRank_def toGraphId_eval)
qed

lemma chain_walk_acyclic: "acyclic (walk (buildGraphData chainDefs))"
  by (rule acyclic_walk [OF wellKeyed_buildGraphData chain_acyclic])

subsection \<open>A graph with a cycle: A and B depend on each other, X stands alone\<close>

definition cycA :: AssetNode where
  "cycA = \<lparr>assetKey = keyOf ''A'', dependencyKeys = [keyOf ''B''], dependedByKeys = [keyOf ''B''], opNames = [''a'']\<rparr>"

definition cycB :: AssetNode where
  "cycB = \<lparr>assetKey = keyOf ''B'', dependencyKeys = [keyOf ''A''], dependedByKeys = [keyOf ''A''], opNames = [''b'']\<rparr>"

definition cycX :: AssetNode where
  "cycX = \<lparr>assetKey = keyOf ''X'', dependencyKeys = [], dependedByKeys = [], opNames = [''x'']\<rparr>"

definition cycleGraph :: GraphData where
  "cycleGraph = buildGraphData [cycA, cycB, cycX]"

lemma cycleGraph_nodes:
  "nodeOfKey cycleGraph (keyOf ''A'') = Some (graphNode cycA)"
  "nodeOfKey cycleGraph (keyOf ''B'') = Some (graphNode cycB)"
  "nodeOfKey cycleGraph (keyOf ''X'') = Some (graphNode cycX)"
  by code_simp+

lemma cycleGraph_downstreamNodes:
  "downstreamNodes cycleGraph (nodeId (graphNode cycA)) = [graphNode cycB]"
  "downstreamNodes cycleGraph (nodeId (graphNode cycB)) = [graphNode cycA]"
  by code_simp+

lemma cycleGraph_ids:
  "nodeId (graphNode cycA) \<noteq> nodeId (graphNode cycX)"
  "nodeId (graphNode cycB) \<noteq> nodeId (graphNode cycX)"
  by code_simp+

lemma cycleGraph_loop_never_returns:
  "graphDirectionOf_loop graph target stack = Some y \<Longrightarrow>
   graph = cycleGraph \<Longrightarrow> target = graphNode cycX \<Longrightarrow>
   stack \<noteq> [graphNode cycA] \<and> stack \<noteq> [graphNode cycB]"
proof (induction rule: graphDirectionOf_loop.raw_induct [rotated 1, consumes 1, case_names step])
  case (step loop graph target stack y)
  show ?case
  proof (intro conjI notI)
    assume s: "stack = [graphNode cycA]"
    with step(2,3,4) have "loop cycleGraph (graphNode cycX) [graphNode cycB] = Some y"
      by (simp add: cycleGraph_downstreamNodes cycleGraph_ids)
    from step(1) [OF this refl refl] show False by simp
  next
    assume s: "stack = [graphNode cycB]"
    with step(2,3,4) have "loop cycleGraph (graphNode cycX) [graphNode cycA] = Some y"
      by (simp add: cycleGraph_downstreamNodes cycleGraph_ids)
    from step(1) [OF this refl refl] show False by simp
  qed
qed

lemma cycleGraph_direction_None:
  "graphDirectionOf cycleGraph (graphNode cycA) (graphNode cycX) = None"
proof (rule ccontr)
  assume "graphDirectionOf cycleGraph (graphNode cycA) (graphNode cycX) \<noteq> None"
  then obtain y where "graphDirectionOf_loop cycleGraph (graphNode cycX) [graphNode cycA] = Some y"
    by (auto simp: graphDirectionOf_def)
  from cycleGraph_loop_never_returns [OF this refl refl] show False by simp
qed

lemma cycleGraph_walk_from_A:
  "(graphNode cycA, b) \<in> (walk cycleGraph)\<^sup>+ \<Longrightarrow> b = graphNode cycA \<or> b = graphNode cycB"
  by (induction rule: trancl_induct) (auto simp: walk_def cycleGraph_downstreamNodes)

lemma cycleGraph_not_reaches: "\<not> reaches cycleGraph (graphNode cycA) (graphNode cycX)"
  unfolding reaches_def using cycleGraph_walk_from_A cycleGraph_ids by blast

subsection \<open>Unfolding \<^const>\<open>opsInRange\<close>\<close>

text \<open>What one downstream neighbour contributes, given the result of the recursive call.\<close>

definition branchOps :: "GraphNode \<Rightarrow> GraphId list \<Rightarrow> GraphNode \<Rightarrow> string list option \<Rightarrow> string list option" where
  "branchOps from1 seen node rec =
     (if nodeId node \<in> set seen then Some []
      else (case rec of
              None \<Rightarrow> None
            | Some result \<Rightarrow>
                if result \<noteq> [] then Some (opNames (nodeDefinition from1) @ result) else Some []))"

lemma opsInRange_null [simp]: "opsInRange graph None target seen = Some []"
  by (subst opsInRange.simps) simp

lemma opsInRange_same:
  "nodeId frm = nodeId target \<Longrightarrow>
   opsInRange graph (Some frm) target seen = Some (opNames (nodeDefinition target))"
  by (subst opsInRange.simps) simp

lemma opsInRange_inner:
  "seen \<noteq> [] \<Longrightarrow> nodeId frm \<noteq> nodeId target \<Longrightarrow>
   opsInRange graph (Some frm) target seen =
     map_option (\<lambda>ledToTarget. uniq (concat ledToTarget))
       (those (map (\<lambda>node. branchOps frm seen node
                      (opsInRange graph (Some node) target (seen @ [nodeId frm])))
                 (downstreamNodes graph (nodeId frm))))"
  by (subst opsInRange.simps) (simp add: branchOps_def)

lemma opsInRange_outer:
  "nodeId frm \<noteq> nodeId target \<Longrightarrow>
   opsInRange graph (Some frm) target [] =
     (case graphDirectionOf graph frm target of
        None \<Rightarrow> None
      | Some Downstream \<Rightarrow>
          map_option (\<lambda>ledToTarget. uniq (concat ledToTarget))
            (those (map (\<lambda>node. branchOps frm [] node
                           (opsInRange graph (Some node) target [nodeId frm]))
                      (downstreamNodes graph (nodeId frm))))
      | Some Upstream \<Rightarrow>
          map_option (\<lambda>ledToTarget. uniq (concat ledToTarget))
            (those (map (\<lambda>node. branchOps target [] node
                           (opsInRange graph (Some node) frm [nodeId target]))
                      (downstreamNodes graph (nodeId target)))))"
  by (subst opsInRange.simps) (simp add: branchOps_def split: option.splits Direction.splits)

lemma those_map_defined:
  "(\<And>x. x \<in> set xs \<Longrightarrow> f x \<noteq> None) \<Longrightarrow> those (map f xs) \<noteq> None"
  by (induction xs) (auto split: option.splits)

lemma concat_map_Nil: "concat (map (\<lambda>_. []) xs) = []"
  by (induction xs) auto

lemma those_map_empty:
  "(\<And>x. x \<in> set xs \<Longrightarrow> f x = Some []) \<Longrightarrow>
   map_option (\<lambda>ledToTarget. uniq (concat ledToTarget)) (those (map f xs)) = Some []"
proof -
  assume a: "\<And>x. x \<in> set xs \<Longrightarrow> f x = Some []"
  then have "those (map f xs) = Some (map (\<lambda>_. []) xs)"
    by (induction xs) auto
  then show ?thesis by (simp add: uniq_def newSet_def concat_map_Nil)
qed

lemma branchOps_defined: "rec \<noteq> None \<Longrightarrow> branchOps from1 seen node rec \<noteq> None"
  by (auto simp: branchOps_def)

lemma opsInRange_inner_returns:
  "seen \<noteq> [] \<Longrightarrow> opsInRange graph fromOpt target seen \<noteq> None"
proof (induction graph fromOpt target seen rule: opsInRange.induct)
  case (1 graph fromOpt target seen)
  show ?case
  proof (cases fromOpt)
    case None
    then show ?thesis by simp
  next
    case (Some frm)
    show ?thesis
    proof (cases "nodeId frm = nodeId target")
      case True
      with Some show ?thesis by (simp add: opsInRange_same)
    next
      case False
      have "those (map (\<lambda>node. branchOps frm seen node
                      (opsInRange graph (Some node) target (seen @ [nodeId frm])))
                 (downstreamNodes graph (nodeId frm))) \<noteq> None"
      proof (rule those_map_defined)
        fix node
        assume n: "node \<in> set (downstreamNodes graph (nodeId frm))"
        show "branchOps frm seen node (opsInRange graph (Some node) target (seen @ [nodeId frm])) \<noteq> None"
        proof (cases "nodeId node \<in> set seen")
          case True
          then show ?thesis by (simp add: branchOps_def)
        next
          case notseen: False
          have "opsInRange graph (Some node) target (seen @ [nodeId frm]) \<noteq> None"
            using 1(1) [OF Some False _ refl refl refl _ notseen, of False] 1(2) n by simp
          then show ?thesis by (rule branchOps_defined)
        qed
      qed
      with Some False 1(2) show ?thesis by (simp add: opsInRange_inner)
    qed
  qed
qed

lemma opsInRange_returns:
  assumes "graphDirectionOf graph frm target \<noteq> None"
  shows "opsInRange graph (Some frm) target seen \<noteq> None"
proof (cases "seen = []")
  case False
  then show ?thesis by (rule opsInRange_inner_returns)
next
  case True
  show ?thesis
  proof (cases "nodeId frm = nodeId target")
    case True
    then show ?thesis by (simp add: opsInRange_same)
  next
    case False
    have "those (map (\<lambda>node. branchOps a [] node (opsInRange graph (Some node) b [nodeId a]))
               (downstreamNodes graph (nodeId a))) \<noteq> None" for a b
      by (rule those_map_defined) (simp add: branchOps_defined opsInRange_inner_returns)
    with assms False \<open>seen = []\<close> show ?thesis
      by (auto simp: opsInRange_outer split: Direction.splits)
  qed
qed

subsection \<open>The linear chain with op names a, b, c, d\<close>

definition chainGraph :: GraphData where
  "chainGraph = buildGraphData chainDefs"

subsection \<open>Direction between two nodes\<close>

lemma graphDirectionOf_loop_partial:
  "graphDirectionOf_loop graph target stack = Some dir \<Longrightarrow>
   dir = (if \<exists>s\<in>set stack. reaches graph s target then Downstream else Upstream)"
proof (induction rule: graphDirectionOf_loop.raw_induct [rotated 1, consumes 1, case_names step])
  case (step loop graph target stack dir)
  show ?case
  proof (cases "stack = []")
    case True
    with step(2) show ?thesis by simp
  next
    case False
    define node where "node = last stack"
    define ds where "ds = downstreamNodes graph (nodeId node)"
    from False have "stack = butlast stack @ [node]" by (simp add: node_def)
    then have setstack: "set stack = insert node (set (butlast stack))"
      by (metis Un_insert_right append_Nil2 list.simps(15) set_append)
    show ?thesis
    proof (cases "\<exists>d\<in>set ds. nodeId d = nodeId target")
      case True
      then have "reaches graph node target"
        by (subst reaches_unfold) (auto simp: ds_def)
      with setstack have "\<exists>s\<in>set stack. reaches graph s target" by blast
      with True False step(2) show ?thesis
        by (simp add: Let_def ds_def node_def)
    next
      case nomatch: False
      with False step(2) have "loop graph target (butlast stack @ ds) = Some dir"
        by (simp add: Let_def ds_def node_def)
      then have "dir = (if \<exists>s\<in>set (butlast stack @ ds). reaches graph s target
                        then Downstream else Upstream)"
        by (rule step(1))
      moreover have "(\<exists>s\<in>set (butlast stack @ ds). reaches graph s target)
              \<longleftrightarrow> (\<exists>s\<in>set stack. reaches graph s target)"
        using nomatch reaches_unfold [of graph node target] setstack
        by (auto simp: ds_def)
      ultimately show ?thesis by simp
    qed
  qed
qed

lemma graphDirectionOf_partial:
  "graphDirectionOf graph frm target = Some dir \<Longrightarrow>
   dir = (if reaches graph frm target then Downstream else Upstream)"
  unfolding graphDirectionOf_def by (drule graphDirectionOf_loop_partial) simp

text \<open>
  C6 (as amended). For every graph and every pair of nodes, whenever the direction
  search returns, it returns downstream if the target is reachable from the start by one
  or more downstream edges through nodes of the node map, and upstream otherwise, also
  when the two nodes are unrelated. It does return on every graph whose walk relation is
  acyclic, so on every graph keyed by node id that the cycle detector passes. On a graph
  with a cycle it need not return.
\<close>

theorem graphDirectionOf_spec:
  "(graphDirectionOf graph frm target = Some dir \<longrightarrow>
      dir = (if reaches graph frm target then Downstream else Upstream)) \<and>
   (acyclic (walk graph) \<or> wellKeyed graph \<and> \<not> graphHasCycles graph \<longrightarrow>
      graphDirectionOf graph frm target =
        Some (if reaches graph frm target then Downstream else Upstream))"
  using graphDirectionOf_partial graphDirectionOf_on_acyclic passed_acyclic_walk by blast

text \<open>In the diamond, D is downstream of A, and B and C are unrelated.\<close>

theorem graphDirectionOf_spec_witness:
  "wellKeyed (buildGraphData diamondDefs) \<and> \<not> graphHasCycles (buildGraphData diamondDefs) \<and>
   reaches (buildGraphData diamondDefs) (graphNode (diamondDefs ! 0)) (graphNode (diamondDefs ! 3)) \<and>
   graphDirectionOf (buildGraphData diamondDefs) (graphNode (diamondDefs ! 0)) (graphNode (diamondDefs ! 3))
     = Some Downstream \<and>
   \<not> reaches (buildGraphData diamondDefs) (graphNode (diamondDefs ! 1)) (graphNode (diamondDefs ! 2)) \<and>
   graphDirectionOf (buildGraphData diamondDefs) (graphNode (diamondDefs ! 1)) (graphNode (diamondDefs ! 2))
     = Some Upstream"
proof -
  have k: "wellKeyed (buildGraphData diamondDefs)" by (rule wellKeyed_buildGraphData)
  have n: "\<not> graphHasCycles (buildGraphData diamondDefs)" by code_simp
  from k n have gate: "acyclic (walk (buildGraphData diamondDefs)) \<or>
      wellKeyed (buildGraphData diamondDefs) \<and> \<not> graphHasCycles (buildGraphData diamondDefs)"
    by simp
  have 1: "graphDirectionOf (buildGraphData diamondDefs) (graphNode (diamondDefs ! 0))
             (graphNode (diamondDefs ! 3)) = Some Downstream"
    by code_simp
  have 2: "graphDirectionOf (buildGraphData diamondDefs) (graphNode (diamondDefs ! 1))
             (graphNode (diamondDefs ! 2)) = Some Upstream"
    by code_simp
  from 1 graphDirectionOf_spec [where graph = "buildGraphData diamondDefs"
      and frm = "graphNode (diamondDefs ! 0)" and target = "graphNode (diamondDefs ! 3)",
      THEN conjunct2, rule_format, OF gate]
  have "reaches (buildGraphData diamondDefs) (graphNode (diamondDefs ! 0)) (graphNode (diamondDefs ! 3))"
    by (simp split: if_splits)
  moreover
  from 2 graphDirectionOf_spec [where graph = "buildGraphData diamondDefs"
      and frm = "graphNode (diamondDefs ! 1)" and target = "graphNode (diamondDefs ! 2)",
      THEN conjunct2, rule_format, OF gate]
  have "\<not> reaches (buildGraphData diamondDefs) (graphNode (diamondDefs ! 1)) (graphNode (diamondDefs ! 2))"
    by (simp split: if_splits)
  ultimately show ?thesis using 1 2 k n by simp
qed

text \<open>
  On the graph where A and B depend on each other, X is not reachable from A, and the
  search from A for X does not return upstream: it does not return.
\<close>

theorem graphDirectionOf_cycle_counterexample:
  "\<not> reaches cycleGraph (graphNode cycA) (graphNode cycX) \<and>
   graphDirectionOf cycleGraph (graphNode cycA) (graphNode cycX) \<noteq> Some Upstream"
  using cycleGraph_not_reaches cycleGraph_direction_None by simp

subsection \<open>Termination of the topology queries\<close>

text \<open>
  C9 (as amended). On every graph whose walk relation is acyclic, so on every graph
  keyed by node id that the cycle detector passes, and for every pair of nodes (and every
  starting list of seen ids), both the direction search and ops-in-range return. The
  recursion of ops-in-range itself ends on every graph; only its call of the direction
  search, made when the seen list is empty, can fail to return.
\<close>

theorem topology_queries_return:
  "acyclic (walk graph) \<or> wellKeyed graph \<and> \<not> graphHasCycles graph \<Longrightarrow>
   (\<exists>dir. graphDirectionOf graph frm target = Some dir) \<and>
   (\<exists>ops. opsInRange graph (Some frm) target seen = Some ops) \<and>
   (\<exists>ops. opsInRange graph None target seen = Some ops)"
proof -
  assume "acyclic (walk graph) \<or> wellKeyed graph \<and> \<not> graphHasCycles graph"
  then have "acyclic (walk graph)" using passed_acyclic_walk by blast
  then show ?thesis
    using opsInRange_returns [of graph frm target seen]
    by (simp add: graphDirectionOf_on_acyclic)
qed

theorem topology_queries_return_witness:
  "wellKeyed chainGraph \<and> \<not> graphHasCycles chainGraph \<and>
   (\<exists>dir. graphDirectionOf chainGraph (graphNode (chainDefs ! 3)) (graphNode (chainDefs ! 0)) = Some dir) \<and>
   (\<exists>ops. opsInRange chainGraph (Some (graphNode (chainDefs ! 3))) (graphNode (chainDefs ! 0)) [] = Some ops)"
proof -
  have 1: "wellKeyed chainGraph"
    unfolding chainGraph_def by (rule wellKeyed_buildGraphData)
  have 2: "\<not> graphHasCycles chainGraph" by code_simp
  from 1 2 have "acyclic (walk chainGraph) \<or> wellKeyed chainGraph \<and> \<not> graphHasCycles chainGraph"
    by simp
  from topology_queries_return [OF this, of "graphNode (chainDefs ! 3)" "graphNode (chainDefs ! 0)" "[]"] 1 2
  show ?thesis by simp
qed

text \<open>With a cycle between A and B and a target X outside it, neither query returns.\<close>

theorem topology_queries_cycle_counterexample:
  "graphDirectionOf cycleGraph (graphNode cycA) (graphNode cycX) = None \<and>
   opsInRange cycleGraph (Some (graphNode cycA)) (graphNode cycX) [] = None"
  using cycleGraph_ids(1)
  by (simp add: opsInRange_outer cycleGraph_direction_None)

subsection \<open>A start node that is not in the graph\<close>

lemma nodeIds_wellKeyed:
  assumes "wellKeyed graph" and "map_of (nodes graph) gid = None"
  shows "gid \<notin> nodeIds graph"
proof
  assume "gid \<in> nodeIds graph"
  then obtain k n where kn: "(k, n) \<in> set (nodes graph)" and "nodeId n = gid"
    by (auto simp: nodeIds_def)
  with assms(1) have "k = gid" by (auto simp: wellKeyed_def)
  with kn have "gid \<in> fst ` set (nodes graph)" by force
  with assms(2) show False by (simp add: map_of_eq_None_iff)
qed

lemma opsInRange_target_not_a_node:
  "seen \<noteq> [] \<Longrightarrow> nodeId target \<notin> nodeIds graph \<Longrightarrow>
   (\<forall>n. fromOpt = Some n \<longrightarrow> nodeId n \<in> nodeIds graph) \<Longrightarrow>
   opsInRange graph fromOpt target seen = Some []"
proof (induction graph fromOpt target seen rule: opsInRange.induct)
  case (1 graph fromOpt target seen)
  show ?case
  proof (cases fromOpt)
    case None
    then show ?thesis by simp
  next
    case (Some frm)
    with 1(3,4) have ne: "nodeId frm \<noteq> nodeId target" by auto
    have "map_option (\<lambda>ledToTarget. uniq (concat ledToTarget))
            (those (map (\<lambda>node. branchOps frm seen node
                      (opsInRange graph (Some node) target (seen @ [nodeId frm])))
                 (downstreamNodes graph (nodeId frm)))) = Some []"
    proof (rule those_map_empty)
      fix node
      assume n: "node \<in> set (downstreamNodes graph (nodeId frm))"
      show "branchOps frm seen node (opsInRange graph (Some node) target (seen @ [nodeId frm])) = Some []"
      proof (cases "nodeId node \<in> set seen")
        case True
        then show ?thesis by (simp add: branchOps_def)
      next
        case notseen: False
        from n have "nodeId node \<in> nodeIds graph" by (rule downstreamNodes_nodeIds)
        then have "opsInRange graph (Some node) target (seen @ [nodeId frm]) = Some []"
          using 1(1) [OF Some ne _ refl refl refl _ notseen, of False] 1(2,3) n by simp
        then show ?thesis by (simp add: branchOps_def)
      qed
    qed
    with Some ne 1(2) show ?thesis by (simp add: opsInRange_inner)
  qed
qed

lemma graphDirectionOf_no_neighbours:
  "downstreamNodes graph (nodeId frm) = [] \<Longrightarrow> graphDirectionOf graph frm target = Some Upstream"
  unfolding graphDirectionOf_def
  by (subst graphDirectionOf_loop.simps, simp add: Let_def)
     (subst graphDirectionOf_loop.simps, simp)

text \<open>
  C10 (as amended). Ops-in-range returns the empty sequence when \<^verbatim>\<open>from\<close> is null. When
  the graph is keyed by the ids of its nodes, the id of \<^verbatim>\<open>from\<close> is absent from the node
  map and differs from the target's id, and the direction search from \<^verbatim>\<open>from\<close> to the
  target answers upstream (the target is not found downstream of \<^verbatim>\<open>from\<close>), the call
  returns the empty sequence.
\<close>

theorem opsInRange_from_absent:
  "opsInRange graph None target seen = Some [] \<and>
   (wellKeyed graph \<and> map_of (nodes graph) (nodeId frm) = None \<and>
    nodeId frm \<noteq> nodeId target \<and> graphDirectionOf graph frm target = Some Upstream
      \<longrightarrow> opsInRange graph (Some frm) target [] = Some [])"
proof (intro conjI impI)
  show "opsInRange graph None target seen = Some []" by simp
next
  assume a: "wellKeyed graph \<and> map_of (nodes graph) (nodeId frm) = None \<and>
    nodeId frm \<noteq> nodeId target \<and> graphDirectionOf graph frm target = Some Upstream"
  then have notnode: "nodeId frm \<notin> nodeIds graph" by (simp add: nodeIds_wellKeyed)
  have "map_option (\<lambda>ledToTarget. uniq (concat ledToTarget))
          (those (map (\<lambda>node. branchOps target [] node
                         (opsInRange graph (Some node) frm [nodeId target]))
                    (downstreamNodes graph (nodeId target)))) = Some []"
  proof (rule those_map_empty)
    fix node
    assume "node \<in> set (downstreamNodes graph (nodeId target))"
    then have "nodeId node \<in> nodeIds graph" by (rule downstreamNodes_nodeIds)
    with notnode have "opsInRange graph (Some node) frm [nodeId target] = Some []"
      by (intro opsInRange_target_not_a_node) simp_all
    then show "branchOps target [] node (opsInRange graph (Some node) frm [nodeId target]) = Some []"
      by (simp add: branchOps_def)
  qed
  with a show "opsInRange graph (Some frm) target [] = Some []"
    by (simp add: opsInRange_outer)
qed

text \<open>F is an asset outside the loaded graph; B declares it as a dependency.\<close>

definition foreignF :: GraphNode where
  "foreignF = graphNode \<lparr>assetKey = keyOf ''F'', dependencyKeys = [],
                dependedByKeys = [keyOf ''B''], opNames = [''f'']\<rparr>"

definition dependsOnF :: AssetNode where
  "dependsOnF = \<lparr>assetKey = keyOf ''B'', dependencyKeys = [keyOf ''F''],
                  dependedByKeys = [], opNames = [''b'']\<rparr>"

text \<open>
  F is outside the loaded graph and B, which is loaded, depends on it; X is loaded and
  unrelated. From F to X the direction search walks through B, finds nothing and answers
  upstream, and nothing is in range. The same holds from F to D of the chain, where F
  has no neighbour at all.
\<close>

theorem opsInRange_from_absent_witness:
  "wellKeyed (buildGraphData [dependsOnF, cycX]) \<and>
   map_of (nodes (buildGraphData [dependsOnF, cycX])) (nodeId foreignF) = None \<and>
   nodeId foreignF \<noteq> nodeId (graphNode cycX) \<and>
   downstreamNodes (buildGraphData [dependsOnF, cycX]) (nodeId foreignF) = [graphNode dependsOnF] \<and>
   graphDirectionOf (buildGraphData [dependsOnF, cycX]) foreignF (graphNode cycX) = Some Upstream \<and>
   opsInRange (buildGraphData [dependsOnF, cycX]) (Some foreignF) (graphNode cycX) [] = Some [] \<and>
   opsInRange chainGraph (Some foreignF) (graphNode (chainDefs ! 3)) [] = Some []"
proof -
  have 1: "wellKeyed (buildGraphData [dependsOnF, cycX])"
    by (rule wellKeyed_buildGraphData)
  have 2: "map_of (nodes (buildGraphData [dependsOnF, cycX])) (nodeId foreignF) = None"
    by code_simp
  have 3: "nodeId foreignF \<noteq> nodeId (graphNode cycX)" by code_simp
  have 4: "downstreamNodes (buildGraphData [dependsOnF, cycX]) (nodeId foreignF) = [graphNode dependsOnF]"
    by code_simp
  have 5: "graphDirectionOf (buildGraphData [dependsOnF, cycX]) foreignF (graphNode cycX) = Some Upstream"
    by code_simp
  from 1 2 3 5
  have h: "wellKeyed (buildGraphData [dependsOnF, cycX]) \<and>
    map_of (nodes (buildGraphData [dependsOnF, cycX])) (nodeId foreignF) = None \<and>
    nodeId foreignF \<noteq> nodeId (graphNode cycX) \<and>
    graphDirectionOf (buildGraphData [dependsOnF, cycX]) foreignF (graphNode cycX) = Some Upstream"
    by simp
  have 6: "opsInRange (buildGraphData [dependsOnF, cycX]) (Some foreignF) (graphNode cycX) [] = Some []"
    by (rule opsInRange_from_absent [THEN conjunct2, rule_format, OF h])
  have c1: "wellKeyed chainGraph"
    unfolding chainGraph_def by (rule wellKeyed_buildGraphData)
  have c2: "map_of (nodes chainGraph) (nodeId foreignF) = None" by code_simp
  have c3: "nodeId foreignF \<noteq> nodeId (graphNode (chainDefs ! 3))" by code_simp
  have c4: "graphDirectionOf chainGraph foreignF (graphNode (chainDefs ! 3)) = Some Upstream"
    by code_simp
  from c1 c2 c3 c4
  have hc: "wellKeyed chainGraph \<and> map_of (nodes chainGraph) (nodeId foreignF) = None \<and>
    nodeId foreignF \<noteq> nodeId (graphNode (chainDefs ! 3)) \<and>
    graphDirectionOf chainGraph foreignF (graphNode (chainDefs ! 3)) = Some Upstream"
    by simp
  have 7: "opsInRange chainGraph (Some foreignF) (graphNode (chainDefs ! 3)) [] = Some []"
    by (rule opsInRange_from_absent [THEN conjunct2, rule_format, OF hc])
  from 1 2 3 4 5 6 7 show ?thesis by (simp only: simp_thms)
qed

text \<open>
  In the graph built from B alone, F is absent from the node map but is a key of the
  downstream index; from F to B the call returns the op names of both.
\<close>

theorem opsInRange_from_absent_counterexample:
  "map_of (nodes (buildGraphData [dependsOnF])) (nodeId foreignF) = None \<and>
   opsInRange (buildGraphData [dependsOnF]) (Some foreignF) (graphNode dependsOnF) []
     = Some [''f'', ''b'']"
  by code_simp

subsection \<open>The linear chain, for any four assets and any op names\<close>

definition chainOf ::
  "AssetKey \<Rightarrow> AssetKey \<Rightarrow> AssetKey \<Rightarrow> AssetKey \<Rightarrow>
   string list \<Rightarrow> string list \<Rightarrow> string list \<Rightarrow> string list \<Rightarrow> AssetNode list" where
  "chainOf ka kb kc kd oa ob oc od =
     [\<lparr>assetKey = ka, dependencyKeys = [], dependedByKeys = [kb], opNames = oa\<rparr>,
      \<lparr>assetKey = kb, dependencyKeys = [ka], dependedByKeys = [kc], opNames = ob\<rparr>,
      \<lparr>assetKey = kc, dependencyKeys = [kb], dependedByKeys = [kd], opNames = oc\<rparr>,
      \<lparr>assetKey = kd, dependencyKeys = [kc], dependedByKeys = [], opNames = od\<rparr>]"

lemma chainOf_graph:
  assumes "distinct [toGraphId ka, toGraphId kb, toGraphId kc, toGraphId kd]"
  shows "downstream (buildGraphData (chainOf ka kb kc kd oa ob oc od)) =
           [(toGraphId ka, [(toGraphId kb, True)]),
            (toGraphId kb, [(toGraphId kc, True)]),
            (toGraphId kc, [(toGraphId kd, True)])]"
    and "nodes (buildGraphData (chainOf ka kb kc kd oa ob oc od)) =
           [(toGraphId ka, graphNode (chainOf ka kb kc kd oa ob oc od ! 0)),
            (toGraphId kb, graphNode (chainOf ka kb kc kd oa ob oc od ! 1)),
            (toGraphId kc, graphNode (chainOf ka kb kc kd oa ob oc od ! 2)),
            (toGraphId kd, graphNode (chainOf ka kb kc kd oa ob oc od ! 3))]"
  using assms
  by (auto simp add: buildGraphData_def chainOf_def addDefinition_def addEdge_def Let_def
      emptyGraphData_def graphNode_def)

subsection \<open>\<^const>\<open>uniq\<close> keeps the first occurrence of each name\<close>

lemma newSet_snoc:
  "newSet (xs @ [x]) = (if x \<in> set xs then newSet xs else newSet xs @ [x])"
proof -
  have "set (fold (\<lambda>x acc. if x \<in> set acc then acc else acc @ [x]) xs []) = set xs"
    by (simp add: set_fold_add)
  then show ?thesis by (simp add: newSet_def)
qed

lemma uniq_rev_remdups: "uniq xs = rev (remdups (rev xs))"
  unfolding uniq_def by (induction xs rule: rev_induct) (simp_all add: newSet_snoc newSet_def)

lemma remdups_remdups_append: "remdups (remdups as @ bs) = remdups (as @ bs)"
  by (induction as) auto

lemma uniq_append_uniq: "uniq (xs @ uniq ys) = uniq (xs @ ys)"
  by (simp add: uniq_rev_remdups remdups_remdups_append)

lemma uniq_Nil_iff: "uniq xs = [] \<longleftrightarrow> xs = []"
  by (simp add: uniq_rev_remdups)

lemma opsInRange_single_branch:
  assumes "seen \<noteq> []" and "nodeId frm \<noteq> nodeId target"
    and "downstreamNodes graph (nodeId frm) = [node]" and "nodeId node \<notin> set seen"
    and "opsInRange graph (Some node) target (seen @ [nodeId frm]) = Some result"
  shows "opsInRange graph (Some frm) target seen =
           Some (if result \<noteq> [] then uniq (opNames (nodeDefinition frm) @ result) else [])"
  using assms by (simp add: opsInRange_inner branchOps_def uniq_def newSet_def)

lemma chainOf_walk:
  fixes ka kb kc kd :: AssetKey and oa ob oc od :: "string list"
  assumes dist: "distinct [toGraphId ka, toGraphId kb, toGraphId kc, toGraphId kd]"
  defines "graph \<equiv> buildGraphData (chainOf ka kb kc kd oa ob oc od)"
    and "na \<equiv> graphNode (chainOf ka kb kc kd oa ob oc od ! 0)"
    and "nb \<equiv> graphNode (chainOf ka kb kc kd oa ob oc od ! 1)"
    and "nc \<equiv> graphNode (chainOf ka kb kc kd oa ob oc od ! 2)"
    and "nd \<equiv> graphNode (chainOf ka kb kc kd oa ob oc od ! 3)"
  shows "nodeOfKey graph ka = Some na" and "nodeOfKey graph kd = Some nd"
    and "graphDirectionOf graph na nd = Some Downstream"
    and "graphDirectionOf graph nd na = Some Upstream"
    and "opsInRange graph (Some na) nd [] =
           Some (if od \<noteq> [] then uniq (oa @ ob @ oc @ od) else [])"
    and "opsInRange graph (Some nd) na [] =
           Some (if od \<noteq> [] then uniq (oa @ ob @ oc @ od) else [])"
proof -
  have ids: "nodeId na = toGraphId ka" "nodeId nb = toGraphId kb"
    "nodeId nc = toGraphId kc" "nodeId nd = toGraphId kd"
    by (simp_all add: na_def nb_def nc_def nd_def graphNode_def chainOf_def)
  have ops: "opNames (nodeDefinition na) = oa" "opNames (nodeDefinition nb) = ob"
    "opNames (nodeDefinition nc) = oc" "opNames (nodeDefinition nd) = od"
    by (simp_all add: na_def nb_def nc_def nd_def graphNode_def chainOf_def)
  from dist have ne: "toGraphId ka \<noteq> toGraphId kb" "toGraphId ka \<noteq> toGraphId kc"
    "toGraphId ka \<noteq> toGraphId kd" "toGraphId kb \<noteq> toGraphId kc"
    "toGraphId kb \<noteq> toGraphId kd" "toGraphId kc \<noteq> toGraphId kd"
    by simp_all
  note gr = chainOf_graph [OF dist, of oa ob oc od, folded graph_def na_def nb_def nc_def nd_def]
  have dn: "downstreamNodes graph (toGraphId ka) = [nb]" "downstreamNodes graph (toGraphId kb) = [nc]"
    "downstreamNodes graph (toGraphId kc) = [nd]" "downstreamNodes graph (toGraphId kd) = []"
    using ne by (auto simp: downstreamNodes_def gr objectKeys_def map_filter_simps)
  show "nodeOfKey graph ka = Some na" and "nodeOfKey graph kd = Some nd"
    using ne by (auto simp: nodeOfKey_def gr)
  have dirC: "graphDirectionOf_loop graph nd [nc] = Some Downstream"
    by (subst graphDirectionOf_loop.simps) (simp add: Let_def ids dn)
  have dirB: "graphDirectionOf_loop graph nd [nb] = Some Downstream"
    using ne by (subst graphDirectionOf_loop.simps) (simp add: Let_def ids dn dirC)
  show dirA: "graphDirectionOf graph na nd = Some Downstream"
    unfolding graphDirectionOf_def
    using ne by (subst graphDirectionOf_loop.simps) (simp add: Let_def ids dn dirB)
  show dirD: "graphDirectionOf graph nd na = Some Upstream"
    by (rule graphDirectionOf_no_neighbours) (simp add: ids dn)
  have D: "opsInRange graph (Some nd) nd seen = Some od" for seen
    by (simp add: opsInRange_same ops)
  have C: "opsInRange graph (Some nc) nd [toGraphId ka, toGraphId kb] =
             Some (if od \<noteq> [] then uniq (oc @ od) else [])"
    using ne opsInRange_single_branch [of "[toGraphId ka, toGraphId kb]" nc nd graph nd od]
    by (simp add: ids dn D ops)
  have B: "opsInRange graph (Some nb) nd [toGraphId ka] =
             Some (if od \<noteq> [] then uniq (ob @ oc @ od) else [])"
    using ne opsInRange_single_branch [of "[toGraphId ka]" nb nd graph nc
        "if od \<noteq> [] then uniq (oc @ od) else []"]
    by (simp add: ids dn C ops uniq_Nil_iff uniq_append_uniq)
  have walk: "map_option (\<lambda>ledToTarget. uniq (concat ledToTarget))
            (those (map (\<lambda>node. branchOps na [] node
                           (opsInRange graph (Some node) nd [nodeId na]))
                      (downstreamNodes graph (nodeId na)))) =
          Some (if od \<noteq> [] then uniq (oa @ ob @ oc @ od) else [])"
    using uniq_append_uniq [of oa "ob @ oc @ od"]
    by (simp add: ids dn B ops branchOps_def uniq_Nil_iff)
  from ne have ad: "nodeId na \<noteq> nodeId nd" "nodeId nd \<noteq> nodeId na" by (simp_all add: ids)
  show "opsInRange graph (Some na) nd [] =
           Some (if od \<noteq> [] then uniq (oa @ ob @ oc @ od) else [])"
    by (simp only: opsInRange_outer [OF ad(1)] dirA option.case Direction.case walk)
  show "opsInRange graph (Some nd) na [] =
           Some (if od \<noteq> [] then uniq (oa @ ob @ oc @ od) else [])"
    by (simp only: opsInRange_outer [OF ad(2)] dirD option.case Direction.case walk)
qed

text \<open>
  C5 (as amended). For the linear chain of four assets A, B, C, D with different
  GraphIds, each declared the upstream of the next, in which D has at least one op name:
  the call with (A, D) returns the op names of A, B, C, D in that order, each name at its
  first occurrence only, so without duplicates (and exactly the four lists one after the
  other when no name is repeated); the call with (D, A), for which the direction search
  answers upstream, returns the same sequence. When D has no op names, both calls return
  the empty sequence.
\<close>

theorem opsInRange_chain:
  "distinct [toGraphId ka, toGraphId kb, toGraphId kc, toGraphId kd] \<longrightarrow>
   (let graph = buildGraphData (chainOf ka kb kc kd oa ob oc od);
        a = graphNode (chainOf ka kb kc kd oa ob oc od ! 0);
        d = graphNode (chainOf ka kb kc kd oa ob oc od ! 3);
        names = oa @ ob @ oc @ od
    in nodeOfKey graph ka = Some a \<and> nodeOfKey graph kd = Some d \<and>
       graphDirectionOf graph a d = Some Downstream \<and>
       graphDirectionOf graph d a = Some Upstream \<and>
       (od \<noteq> [] \<longrightarrow>
          opsInRange graph (Some a) d [] = Some (rev (remdups (rev names))) \<and>
          opsInRange graph (Some d) a [] = Some (rev (remdups (rev names))) \<and>
          distinct (rev (remdups (rev names))) \<and>
          set (rev (remdups (rev names))) = set names \<and>
          (distinct names \<longrightarrow> opsInRange graph (Some a) d [] = Some names)) \<and>
       (od = [] \<longrightarrow>
          opsInRange graph (Some a) d [] = Some [] \<and> opsInRange graph (Some d) a [] = Some []))"
proof
  assume dist: "distinct [toGraphId ka, toGraphId kb, toGraphId kc, toGraphId kd]"
  note w = chainOf_walk [OF dist, of oa ob oc od]
  have "distinct (oa @ ob @ oc @ od) \<Longrightarrow> rev (remdups (rev (oa @ ob @ oc @ od))) = oa @ ob @ oc @ od"
    by (simp only: distinct_rev [symmetric, of "oa @ ob @ oc @ od"] distinct_remdups_id rev_rev_ident)
  with w show "let graph = buildGraphData (chainOf ka kb kc kd oa ob oc od);
        a = graphNode (chainOf ka kb kc kd oa ob oc od ! 0);
        d = graphNode (chainOf ka kb kc kd oa ob oc od ! 3);
        names = oa @ ob @ oc @ od
    in nodeOfKey graph ka = Some a \<and> nodeOfKey graph kd = Some d \<and>
       graphDirectionOf graph a d = Some Downstream \<and>
       graphDirectionOf graph d a = Some Upstream \<and>
       (od \<noteq> [] \<longrightarrow>
          opsInRange graph (Some a) d [] = Some (rev (remdups (rev names))) \<and>
          opsInRange graph (Some d) a [] = Some (rev (remdups (rev names))) \<and>
          distinct (rev (remdups (rev names))) \<and>
          set (rev (remdups (rev names))) = set names \<and>
          (distinct names \<longrightarrow> opsInRange graph (Some a) d [] = Some names)) \<and>
       (od = [] \<longrightarrow>
          opsInRange graph (Some a) d [] = Some [] \<and> opsInRange graph (Some d) a [] = Some [])"
    by (cases "od = []") (simp_all add: Let_def uniq_rev_remdups del: rev_append)
qed

text \<open>
  The chain A, B, C, D with op names x at A, x and y at B, y at C and z at D: the result
  names x, y and z once each, in the order of their first occurrence.
\<close>

theorem opsInRange_chain_witness:
  "distinct [toGraphId (keyOf ''A''), toGraphId (keyOf ''B''), toGraphId (keyOf ''C''),
             toGraphId (keyOf ''D'')] \<and>
   opsInRange
     (buildGraphData (chainOf (keyOf ''A'') (keyOf ''B'') (keyOf ''C'') (keyOf ''D'')
        [''x''] [''x'', ''y''] [''y''] [''z'']))
     (Some (graphNode (chainOf (keyOf ''A'') (keyOf ''B'') (keyOf ''C'') (keyOf ''D'')
        [''x''] [''x'', ''y''] [''y''] [''z''] ! 0)))
     (graphNode (chainOf (keyOf ''A'') (keyOf ''B'') (keyOf ''C'') (keyOf ''D'')
        [''x''] [''x'', ''y''] [''y''] [''z''] ! 3)) []
     = Some [''x'', ''y'', ''z''] \<and>
   opsInRange
     (buildGraphData (chainOf (keyOf ''A'') (keyOf ''B'') (keyOf ''C'') (keyOf ''D'')
        [''a''] [''b''] [''c''] [''d'']))
     (Some (graphNode (chainOf (keyOf ''A'') (keyOf ''B'') (keyOf ''C'') (keyOf ''D'')
        [''a''] [''b''] [''c''] [''d''] ! 0)))
     (graphNode (chainOf (keyOf ''A'') (keyOf ''B'') (keyOf ''C'') (keyOf ''D'')
        [''a''] [''b''] [''c''] [''d''] ! 3)) []
     = Some [''a'', ''b'', ''c'', ''d'']"
proof -
  have d: "distinct [toGraphId (keyOf ''A''), toGraphId (keyOf ''B''), toGraphId (keyOf ''C''),
             toGraphId (keyOf ''D'')]"
    by (simp add: toGraphId_eval)
  have z: "[''z''] \<noteq> ([] :: string list)" and dd: "[''d''] \<noteq> ([] :: string list)" by simp_all
  have r: "rev (remdups (rev ([''x''] @ [''x'', ''y''] @ [''y''] @ [''z'']))) = [''x'', ''y'', ''z'']"
    by simp
  have n: "distinct ([''a''] @ [''b''] @ [''c''] @ [''d''])" by simp
  from opsInRange_chain [where oa = "[''x'']" and ob = "[''x'', ''y'']" and oc = "[''y'']"
      and od = "[''z'']", unfolded Let_def, rule_format, OF d]
  have 1: "opsInRange
     (buildGraphData (chainOf (keyOf ''A'') (keyOf ''B'') (keyOf ''C'') (keyOf ''D'')
        [''x''] [''x'', ''y''] [''y''] [''z'']))
     (Some (graphNode (chainOf (keyOf ''A'') (keyOf ''B'') (keyOf ''C'') (keyOf ''D'')
        [''x''] [''x'', ''y''] [''y''] [''z''] ! 0)))
     (graphNode (chainOf (keyOf ''A'') (keyOf ''B'') (keyOf ''C'') (keyOf ''D'')
        [''x''] [''x'', ''y''] [''y''] [''z''] ! 3)) []
     = Some [''x'', ''y'', ''z'']"
    using z r by (simp del: rev_append remdups.simps rev.simps append.simps)
  from opsInRange_chain [where oa = "[''a'']" and ob = "[''b'']" and oc = "[''c'']"
      and od = "[''d'']", unfolded Let_def, rule_format, OF d]
  have 2: "opsInRange
     (buildGraphData (chainOf (keyOf ''A'') (keyOf ''B'') (keyOf ''C'') (keyOf ''D'')
        [''a''] [''b''] [''c''] [''d'']))
     (Some (graphNode (chainOf (keyOf ''A'') (keyOf ''B'') (keyOf ''C'') (keyOf ''D'')
        [''a''] [''b''] [''c''] [''d''] ! 0)))
     (graphNode (chainOf (keyOf ''A'') (keyOf ''B'') (keyOf ''C'') (keyOf ''D'')
        [''a''] [''b''] [''c''] [''d''] ! 3)) []
     = Some [''a'', ''b'', ''c'', ''d'']"
    using dd n by simp
  from d 1 2 show ?thesis by (simp only: simp_thms)
qed

text \<open>
  When D has no op names, a walk that reaches D comes back empty, which the code reads
  as not having reached it: the op names of A, B and C are not returned.
\<close>

theorem opsInRange_chain_counterexample:
  "opsInRange
     (buildGraphData (chainOf (keyOf ''A'') (keyOf ''B'') (keyOf ''C'') (keyOf ''D'')
        [''a''] [''b''] [''c''] []))
     (Some (graphNode (chainOf (keyOf ''A'') (keyOf ''B'') (keyOf ''C'') (keyOf ''D'')
        [''a''] [''b''] [''c''] [] ! 0)))
     (graphNode (chainOf (keyOf ''A'') (keyOf ''B'') (keyOf ''C'') (keyOf ''D'')
        [''a''] [''b''] [''c''] [] ! 3)) []
     = Some [] \<and>
   opsInRange
     (buildGraphData (chainOf (keyOf ''A'') (keyOf ''B'') (keyOf ''C'') (keyOf ''D'')
        [''a''] [''b''] [''c''] []))
     (Some (graphNode (chainOf (keyOf ''A'') (keyOf ''B'') (keyOf ''C'') (keyOf ''D'')
        [''a''] [''b''] [''c''] [] ! 3)))
     (graphNode (chainOf (keyOf ''A'') (keyOf ''B'') (keyOf ''C'') (keyOf ''D'')
        [''a''] [''b''] [''c''] [] ! 0)) []
     = Some [] \<and>
   concat (map opNames (chainOf (keyOf ''A'') (keyOf ''B'') (keyOf ''C'') (keyOf ''D'')
        [''a''] [''b''] [''c''] [])) = [''a'', ''b'', ''c'']"
  by code_simp

section \<open>Span compressor\<close>

datatype PartitionState =
  MISSING | SUCCESS | SUCCESS_MISSING | FAILURE | FAILURE_MISSING | QUEUED | STARTED

text \<open>
  The property names every plain object inherits from \<^verbatim>\<open>Object.prototype\<close>. The operator
  \<^verbatim>\<open>in\<close> finds them too, and reading one of them yields the inherited member (a function,
  or the prototype itself for \<^verbatim>\<open>__proto__\<close>), which is no partition state. Distinct names
  yield distinct members.
\<close>

definition objectPrototypeKeys :: "string list" where
  "objectPrototypeKeys =
     [''constructor'', ''__defineGetter__'', ''__defineSetter__'', ''hasOwnProperty'',
      ''__lookupGetter__'', ''__lookupSetter__'', ''isPrototypeOf'', ''propertyIsEnumerable'',
      ''toString'', ''valueOf'', ''__proto__'', ''toLocaleString'']"

text \<open>
  What a span holds as its status at run time: a partition state, or the inherited
  member read under one of the names above.
\<close>

datatype StatusValue = State PartitionState | Inherited string

record Span =
  startIdx :: nat
  endIdx :: nat
  status :: StatusValue

text \<open>\<^verbatim>\<open>Object.fromEntries\<close>: the entries are written in order, a later one over an earlier one.\<close>

definition objectFromEntries :: "('k \<times> 'v) list \<Rightarrow> ('k \<times> 'v) list" where
  "objectFromEntries entries = fold (\<lambda>(k, v) obj. AList.update k v obj) entries []"

text \<open>
  \<^verbatim>\<open>keys[ii] in keyStatus ? keyStatus[keys[ii]] : PartitionState.MISSING\<close>. An own key gives
  its value; a name that is not an own key but is inherited is still \<^verbatim>\<open>in\<close> the object and
  gives the inherited member; any other name gives \<^verbatim>\<open>MISSING\<close>.
\<close>

definition statusOfKey :: "(string \<times> PartitionState) list \<Rightarrow> string \<Rightarrow> StatusValue" where
  "statusOfKey keyStatus key =
     (case map_of keyStatus key of
        Some s \<Rightarrow> State s
      | None \<Rightarrow> if key \<in> set objectPrototypeKeys then Inherited key else State MISSING)"

text \<open>One round of the \<^verbatim>\<open>for\<close> loop of \<^verbatim>\<open>_partitionsToSpans\<close>, at index \<open>ii\<close>.\<close>

definition spanStep ::
  "string list \<Rightarrow> (string \<times> PartitionState) list \<Rightarrow> nat \<Rightarrow> Span list \<Rightarrow> Span list" where
  "spanStep keys keyStatus ii spans =
     (let st = statusOfKey keyStatus (keys ! ii)
      in if spans = [] \<or> status (last spans) \<noteq> st
         then spans @ [\<lparr>startIdx = ii, endIdx = ii, status = st\<rparr>]
         else butlast spans @ [(last spans)\<lparr>endIdx := ii\<rparr>])"

definition partitionsToSpans ::
  "string list \<Rightarrow> (string \<times> PartitionState) list \<Rightarrow> Span list" where
  "partitionsToSpans keys keyStatus = fold (spanStep keys keyStatus) [0..<length keys] []"

text \<open>
  The table the component passes:
  \<^verbatim>\<open>Object.fromEntries(partitionNames.map((name, idx) => [name, partitionStateForKey(name, idx)]))\<close>.
\<close>

definition partitionStatusTable ::
  "string list \<Rightarrow> (string \<Rightarrow> nat \<Rightarrow> PartitionState) \<Rightarrow> (string \<times> PartitionState) list" where
  "partitionStatusTable partitionNames partitionStateForKey =
     objectFromEntries
       (map (\<lambda>idx. (partitionNames ! idx, partitionStateForKey (partitionNames ! idx) idx))
          [0..<length partitionNames])"

definition toSpans :: "string list \<Rightarrow> (string \<Rightarrow> nat \<Rightarrow> PartitionState) \<Rightarrow> Span list" where
  "toSpans partitionNames partitionStateForKey =
     partitionsToSpans partitionNames (partitionStatusTable partitionNames partitionStateForKey)"

text \<open>The indices a span stands for: from its start to its end, both included.\<close>

definition spanIndices :: "Span \<Rightarrow> nat list" where
  "spanIndices s = [startIdx s..<Suc (endIdx s)]"

subsection \<open>The loop invariant\<close>

definition spansUpTo :: "(nat \<Rightarrow> StatusValue) \<Rightarrow> nat \<Rightarrow> Span list \<Rightarrow> bool" where
  "spansUpTo st n spans \<longleftrightarrow>
     concat (map spanIndices spans) = [0..<n] \<and>
     (\<forall>s\<in>set spans. startIdx s \<le> endIdx s \<and>
        (\<forall>i. startIdx s \<le> i \<and> i \<le> endIdx s \<longrightarrow> status s = st i)) \<and>
     successively (\<lambda>a b. startIdx b = Suc (endIdx a) \<and> status b \<noteq> status a) spans \<and>
     (spans \<noteq> [] \<longrightarrow> Suc (endIdx (last spans)) = n \<and> startIdx (hd spans) = 0) \<and>
     (0 < n \<longrightarrow> spans \<noteq> [])"

lemma spansUpTo_push:
  assumes inv: "spansUpTo st n spans"
    and new: "spans = [] \<or> status (last spans) \<noteq> st n"
  shows "spansUpTo st (Suc n) (spans @ [\<lparr>startIdx = n, endIdx = n, status = st n\<rparr>])"
proof -
  from inv have n0: "spans = [] \<Longrightarrow> n = 0"
    by (auto simp: spansUpTo_def)
  from inv new n0 show ?thesis
    unfolding spansUpTo_def
    by (auto simp: successively_append_iff spanIndices_def)
qed

lemma spansUpTo_extend:
  assumes inv: "spansUpTo st n (bl @ [l])"
    and same: "status l = st n"
  shows "spansUpTo st (Suc n) (bl @ [l\<lparr>endIdx := n\<rparr>])"
proof -
  from inv have e: "Suc (endIdx l) = n" and le: "startIdx l \<le> endIdx l"
    by (auto simp: spansUpTo_def)
  from inv have "concat (map spanIndices bl) @ spanIndices l = [0..<n]"
    by (simp add: spansUpTo_def)
  moreover have "spanIndices (l\<lparr>endIdx := n\<rparr>) = spanIndices l @ [n]"
    using e le by (simp add: spanIndices_def)
  ultimately have 1: "concat (map spanIndices (bl @ [l\<lparr>endIdx := n\<rparr>])) = [0..<Suc n]"
    by simp
  have 2: "\<forall>s\<in>set (bl @ [l\<lparr>endIdx := n\<rparr>]). startIdx s \<le> endIdx s \<and>
        (\<forall>i. startIdx s \<le> i \<and> i \<le> endIdx s \<longrightarrow> status s = st i)"
  proof
    fix s assume "s \<in> set (bl @ [l\<lparr>endIdx := n\<rparr>])"
    then consider "s \<in> set bl" | "s = l\<lparr>endIdx := n\<rparr>" by auto
    then show "startIdx s \<le> endIdx s \<and> (\<forall>i. startIdx s \<le> i \<and> i \<le> endIdx s \<longrightarrow> status s = st i)"
    proof cases
      case 1
      with inv show ?thesis by (simp add: spansUpTo_def)
    next
      case 2
      have "status l = st i" if "startIdx l \<le> i" "i \<le> n" for i
      proof (cases "i = n")
        case True
        with same show ?thesis by simp
      next
        case False
        with that e have "i \<le> endIdx l" by simp
        with inv that show ?thesis by (simp add: spansUpTo_def)
      qed
      then have "\<forall>i. startIdx l \<le> i \<and> i \<le> n \<longrightarrow> status l = st i" by blast
      moreover from e le have "startIdx l \<le> n" by simp
      moreover from 2 have "startIdx s = startIdx l" "endIdx s = n" "status s = status l" by simp_all
      ultimately show ?thesis by presburger
    qed
  qed
  from inv have 3: "successively (\<lambda>a b. startIdx b = Suc (endIdx a) \<and> status b \<noteq> status a)
                      (bl @ [l\<lparr>endIdx := n\<rparr>])"
    by (simp add: spansUpTo_def successively_append_iff)
  from inv have 4: "startIdx (hd (bl @ [l\<lparr>endIdx := n\<rparr>])) = 0"
    by (cases bl) (simp_all add: spansUpTo_def)
  from 1 2 3 4 show ?thesis
    unfolding spansUpTo_def by simp
qed

lemma spansUpTo_step:
  assumes "spansUpTo (\<lambda>i. statusOfKey keyStatus (keys ! i)) n spans"
  shows "spansUpTo (\<lambda>i. statusOfKey keyStatus (keys ! i)) (Suc n) (spanStep keys keyStatus n spans)"
proof (cases "spans = [] \<or> status (last spans) \<noteq> statusOfKey keyStatus (keys ! n)")
  case True
  with spansUpTo_push [OF assms] show ?thesis
    by (simp add: spanStep_def Let_def)
next
  case False
  then have ne: "spans \<noteq> []" and same: "status (last spans) = statusOfKey keyStatus (keys ! n)"
    by simp_all
  from ne have split: "spans = butlast spans @ [last spans]" by simp
  from assms split have "spansUpTo (\<lambda>i. statusOfKey keyStatus (keys ! i)) n (butlast spans @ [last spans])"
    by simp
  from spansUpTo_extend [OF this same] False show ?thesis
    by (simp add: spanStep_def Let_def)
qed

lemma spansUpTo_fold:
  "spansUpTo (\<lambda>i. statusOfKey keyStatus (keys ! i)) n (fold (spanStep keys keyStatus) [0..<n] [])"
proof (induction n)
  case 0
  show ?case by (simp add: spansUpTo_def)
next
  case (Suc n)
  then show ?case by (simp add: spansUpTo_step)
qed

lemma partitionsToSpans_inv:
  "spansUpTo (\<lambda>i. statusOfKey keyStatus (keys ! i)) (length keys) (partitionsToSpans keys keyStatus)"
  unfolding partitionsToSpans_def by (rule spansUpTo_fold)

subsection \<open>The table holds, for each name, the status computed at its last occurrence\<close>

lemma map_of_objectFromEntries_aux:
  "map_of (fold (\<lambda>(k, v) obj. AList.update k v obj) entries obj0) =
     map_of obj0 ++ map_of (rev entries)"
  by (induction entries arbitrary: obj0) (auto simp: update_conv' map_add_def fun_eq_iff split: option.splits)

lemma map_of_objectFromEntries:
  "map_of (objectFromEntries entries) = map_of (rev entries)"
  by (simp add: objectFromEntries_def map_of_objectFromEntries_aux)

lemma map_of_rev_tabulate:
  "i < n \<Longrightarrow>
   \<exists>j<n. g j = g i \<and> (\<forall>k<n. g k = g i \<longrightarrow> k \<le> j) \<and>
         map_of (rev (map (\<lambda>idx. (g idx, h idx)) [0..<n])) (g i) = Some (h j)"
proof (induction n)
  case 0
  then show ?case by simp
next
  case (Suc n)
  show ?case
  proof (cases "g n = g i")
    case True
    then show ?thesis by (intro exI [of _ n]) auto
  next
    case False
    with Suc.prems have "i < n" by (cases "i = n") auto
    from Suc.IH [OF this] obtain j where j: "j < n" "g j = g i"
      "\<forall>k<n. g k = g i \<longrightarrow> k \<le> j"
      "map_of (rev (map (\<lambda>idx. (g idx, h idx)) [0..<n])) (g i) = Some (h j)"
      by blast
    have "\<forall>k<Suc n. g k = g i \<longrightarrow> k \<le> j"
      using j(3) False by (auto simp: less_Suc_eq)
    with j False show ?thesis
      by (intro exI [of _ j]) auto
  qed
qed

lemma partitionStatusTable_last:
  assumes "i < length names"
  shows "\<exists>j<length names. names ! j = names ! i \<and>
           (\<forall>k<length names. names ! k = names ! i \<longrightarrow> k \<le> j) \<and>
           statusOfKey (partitionStatusTable names f) (names ! i) = State (f (names ! i) j)"
proof -
  from map_of_rev_tabulate [OF assms, of "(!) names" "\<lambda>idx. f (names ! idx) idx"]
  obtain j where j: "j < length names" "names ! j = names ! i"
    "\<forall>k<length names. names ! k = names ! i \<longrightarrow> k \<le> j"
    "map_of (rev (map (\<lambda>idx. (names ! idx, f (names ! idx) idx)) [0..<length names])) (names ! i)
       = Some (f (names ! j) j)"
    by blast
  from j(2,4) have "statusOfKey (partitionStatusTable names f) (names ! i) = State (f (names ! i) j)"
    by (simp add: statusOfKey_def partitionStatusTable_def map_of_objectFromEntries)
  with j(1,2,3) show ?thesis by blast
qed

lemma partitionStatusTable_distinct:
  assumes "distinct names" and "i < length names"
  shows "statusOfKey (partitionStatusTable names f) (names ! i) = State (f (names ! i) i)"
proof -
  from partitionStatusTable_last [OF assms(2), of f] obtain j where j: "j < length names"
    "names ! j = names ! i"
    "statusOfKey (partitionStatusTable names f) (names ! i) = State (f (names ! i) j)"
    by blast
  from assms j(1,2) have "j = i" by (simp add: nth_eq_iff_index_eq)
  with j(3) show ?thesis by simp
qed

lemma span_index_in_range:
  assumes "concat (map spanIndices spans) = [0..<n]" and "s \<in> set spans"
    and "startIdx s \<le> i" and "i \<le> endIdx s"
  shows "i < n"
proof -
  from assms(3,4) have "i \<in> set (spanIndices s)"
    by (simp add: spanIndices_def del: upt_Suc)
  with assms(2) have "i \<in> set (concat (map spanIndices spans))" by auto
  with assms(1) show ?thesis by simp
qed

definition successThenMissing :: "string \<Rightarrow> nat \<Rightarrow> PartitionState" where
  "successThenMissing name idx = (if idx < 2 then SUCCESS else MISSING)"

definition successAtZero :: "string \<Rightarrow> nat \<Rightarrow> PartitionState" where
  "successAtZero name idx = (if idx = 0 then SUCCESS else MISSING)"

text \<open>
  C7 (as amended). For every list of partition names and every status function, the
  spans returned cover every index exactly once: their index ranges, one after the
  other, are exactly 0 up to the last index, so the first span starts at 0, each span
  starts right after the one before it, and the last span ends at the final index. No two
  adjacent spans share a status. Every index of a span has the span's status as the
  status computed for its partition name at the last index where that name occurs; when
  no name is repeated, this is the status computed for the partition at that very index.
  For four partitions with statuses success, success, missing, missing the result is the
  two spans (0, 1, success) and (2, 3, missing).
\<close>

theorem toSpans_spec:
  "(let spans = toSpans names f
    in concat (map spanIndices spans) = [0..<length names] \<and>
       (names \<noteq> [] \<longrightarrow>
          spans \<noteq> [] \<and> startIdx (hd spans) = 0 \<and> endIdx (last spans) = length names - 1) \<and>
       (\<forall>j. Suc j < length spans \<longrightarrow>
          startIdx (spans ! Suc j) = Suc (endIdx (spans ! j)) \<and>
          status (spans ! Suc j) \<noteq> status (spans ! j)) \<and>
       (\<forall>s\<in>set spans. startIdx s \<le> endIdx s \<and>
          (\<forall>i. startIdx s \<le> i \<and> i \<le> endIdx s \<longrightarrow>
             i < length names \<and>
             (\<exists>j<length names. names ! j = names ! i \<and>
                (\<forall>k<length names. names ! k = names ! i \<longrightarrow> k \<le> j) \<and>
                status s = State (f (names ! i) j)))) \<and>
       (distinct names \<longrightarrow>
          (\<forall>s\<in>set spans. \<forall>i. startIdx s \<le> i \<and> i \<le> endIdx s \<longrightarrow>
             status s = State (f (names ! i) i)))) \<and>
   toSpans [''p1'', ''p2'', ''p3'', ''p4''] successThenMissing =
     [\<lparr>startIdx = 0, endIdx = 1, status = State SUCCESS\<rparr>,
      \<lparr>startIdx = 2, endIdx = 3, status = State MISSING\<rparr>]"
proof -
  let ?spans = "toSpans names f"
  let ?st = "\<lambda>i. statusOfKey (partitionStatusTable names f) (names ! i)"
  have inv: "spansUpTo ?st (length names) ?spans"
    unfolding toSpans_def by (rule partitionsToSpans_inv)
  have 1: "concat (map spanIndices ?spans) = [0..<length names]"
    using inv by (simp add: spansUpTo_def)
  have 2: "names \<noteq> [] \<longrightarrow>
          ?spans \<noteq> [] \<and> startIdx (hd ?spans) = 0 \<and> endIdx (last ?spans) = length names - 1"
    using inv by (auto simp: spansUpTo_def)
  have 3: "\<forall>j. Suc j < length ?spans \<longrightarrow>
          startIdx (?spans ! Suc j) = Suc (endIdx (?spans ! j)) \<and>
          status (?spans ! Suc j) \<noteq> status (?spans ! j)"
    using inv by (simp add: spansUpTo_def successively_conv_nth)
  have tab: "startIdx s \<le> endIdx s \<and> (\<forall>i. startIdx s \<le> i \<and> i \<le> endIdx s \<longrightarrow> status s = ?st i)"
    if "s \<in> set ?spans" for s
    using inv that by (simp add: spansUpTo_def)
  have 4: "\<forall>s\<in>set ?spans. startIdx s \<le> endIdx s \<and>
          (\<forall>i. startIdx s \<le> i \<and> i \<le> endIdx s \<longrightarrow>
             i < length names \<and>
             (\<exists>j<length names. names ! j = names ! i \<and>
                (\<forall>k<length names. names ! k = names ! i \<longrightarrow> k \<le> j) \<and>
                status s = State (f (names ! i) j)))"
  proof (intro ballI conjI allI impI)
    fix s assume s: "s \<in> set ?spans"
    from tab [OF s] show "startIdx s \<le> endIdx s" by simp
    fix i assume i: "startIdx s \<le> i \<and> i \<le> endIdx s"
    then show len: "i < length names"
      using span_index_in_range [OF 1 s] by simp
    from tab [OF s] i have "status s = ?st i" by simp
    with partitionStatusTable_last [OF len, of f]
    show "\<exists>j<length names. names ! j = names ! i \<and>
            (\<forall>k<length names. names ! k = names ! i \<longrightarrow> k \<le> j) \<and>
            status s = State (f (names ! i) j)"
      by simp
  qed
  have 5: "distinct names \<longrightarrow>
          (\<forall>s\<in>set ?spans. \<forall>i. startIdx s \<le> i \<and> i \<le> endIdx s \<longrightarrow>
             status s = State (f (names ! i) i))"
  proof (intro impI ballI allI)
    fix s i assume d: "distinct names" and s: "s \<in> set ?spans"
      and i: "startIdx s \<le> i \<and> i \<le> endIdx s"
    then have len: "i < length names"
      using span_index_in_range [OF 1 s] by simp
    from tab [OF s] i have "status s = ?st i" by simp
    with partitionStatusTable_distinct [OF d len, of f]
    show "status s = State (f (names ! i) i)" by simp
  qed
  have 6: "toSpans [''p1'', ''p2'', ''p3'', ''p4''] successThenMissing =
     [\<lparr>startIdx = 0, endIdx = 1, status = State SUCCESS\<rparr>,
      \<lparr>startIdx = 2, endIdx = 3, status = State MISSING\<rparr>]"
    by code_simp
  from 1 2 3 4 5 6 show ?thesis by (simp only: Let_def)
qed

text \<open>
  The four partitions: the names are all different, the second span holds index 2 and so
  has the status computed for p3 at index 2, which differs from the first span's.
\<close>

theorem toSpans_spec_witness:
  "distinct [''p1'', ''p2'', ''p3'', ''p4''] \<and>
   startIdx (hd (toSpans [''p1'', ''p2'', ''p3'', ''p4''] successThenMissing)) = 0 \<and>
   endIdx (last (toSpans [''p1'', ''p2'', ''p3'', ''p4''] successThenMissing)) = 3 \<and>
   status (toSpans [''p1'', ''p2'', ''p3'', ''p4''] successThenMissing ! 1)
     = State (successThenMissing ''p3'' 2) \<and>
   status (toSpans [''p1'', ''p2'', ''p3'', ''p4''] successThenMissing ! 1)
     \<noteq> status (toSpans [''p1'', ''p2'', ''p3'', ''p4''] successThenMissing ! 0)"
proof -
  let ?names = "[''p1'', ''p2'', ''p3'', ''p4'']"
  let ?spans = "toSpans ?names successThenMissing"
  have d: "distinct ?names" by simp
  have ne: "?names \<noteq> []" by simp
  note t = toSpans_spec [of ?names successThenMissing, unfolded Let_def]
  from t have v: "?spans = [\<lparr>startIdx = 0, endIdx = 1, status = State SUCCESS\<rparr>,
      \<lparr>startIdx = 2, endIdx = 3, status = State MISSING\<rparr>]"
    by (rule conjunct2)
  from t [THEN conjunct1, THEN conjunct2, THEN conjunct1, rule_format, OF ne]
  have 1: "startIdx (hd ?spans) = 0" and 2: "endIdx (last ?spans) = 3"
    by simp_all
  have len: "Suc 0 < length ?spans" by (simp add: v)
  from t [THEN conjunct1, THEN conjunct2, THEN conjunct2, THEN conjunct1, rule_format, OF len]
  have 3: "status (?spans ! 1) \<noteq> status (?spans ! 0)" by simp
  have mem: "?spans ! 1 \<in> set ?spans" by (simp add: v)
  have rng: "startIdx (?spans ! 1) \<le> 2 \<and> 2 \<le> endIdx (?spans ! 1)" by (simp add: v)
  from t [THEN conjunct1, THEN conjunct2, THEN conjunct2, THEN conjunct2, THEN conjunct2,
      rule_format, OF d mem rng]
  have 4: "status (?spans ! 1) = State (successThenMissing ''p3'' 2)" by simp
  from d 1 2 3 4 show ?thesis by (simp only: simp_thms)
qed

text \<open>
  Outside the component, a name that the table does not hold but every object inherits
  is not given \<^verbatim>\<open>MISSING\<close>: the span holds the inherited member.
\<close>

lemma partitionsToSpans_inherited_name:
  "partitionsToSpans [''toString'', ''p1''] [] =
     [\<lparr>startIdx = 0, endIdx = 0, status = Inherited ''toString''\<rparr>,
      \<lparr>startIdx = 1, endIdx = 1, status = State MISSING\<rparr>]"
  by code_simp

text \<open>
  With the name a at both positions and a status function that gives success at index 0
  and missing at index 1, both indices are put in one span with status missing: index 0
  does not get the status computed for it, and the two statuses are not told apart.
\<close>

theorem toSpans_repeated_name_counterexample:
  "toSpans [''a'', ''a''] successAtZero = [\<lparr>startIdx = 0, endIdx = 1, status = State MISSING\<rparr>] \<and>
   successAtZero ''a'' 0 = SUCCESS \<and> successAtZero ''a'' 1 = MISSING"
  by code_simp

section \<open>Range selection over the partition strip\<close>

text \<open>\<^verbatim>\<open>Array.prototype.indexOf\<close>: the first index of the value, or -1.\<close>

fun indexOfFrom :: "'a list \<Rightarrow> 'a \<Rightarrow> int \<Rightarrow> int" where
  "indexOfFrom [] x i = -1"
| "indexOfFrom (y # ys) x i = (if y = x then i else indexOfFrom ys x (i + 1))"

definition indexOf :: "'a list \<Rightarrow> 'a \<Rightarrow> int" where
  "indexOf xs x = indexOfFrom xs x 0"

text \<open>
  \<^verbatim>\<open>Array.prototype.slice(start, end)\<close>: a negative bound counts from the end of the array,
  both bounds are clamped to the array, and the result is empty when they cross.
\<close>

definition slice :: "'a list \<Rightarrow> int \<Rightarrow> int \<Rightarrow> 'a list" where
  "slice xs start finish =
     (let len = int (length xs);
          k = (if start < 0 then max (len + start) 0 else min start len);
          final = (if finish < 0 then max (len + finish) 0 else min finish len)
      in take (nat (final - k)) (drop (nat k) xs))"

definition getRangeSelection :: "string list \<Rightarrow> string \<Rightarrow> string \<Rightarrow> string list" where
  "getRangeSelection partitionNames start finish =
     (let startIdx = indexOf partitionNames start;
          endIdx = indexOf partitionNames finish
      in slice partitionNames (min startIdx endIdx) (max startIdx endIdx + 1))"

text \<open>
  The branch of \<^verbatim>\<open>setSelectionRange\<close> that adds: a \<^verbatim>\<open>Set\<close> of the selection, each name of the
  range added to it, and the set's values in insertion order.
\<close>

definition addToSelection :: "string list \<Rightarrow> string list \<Rightarrow> string list" where
  "addToSelection selected currentSelection =
     fold (\<lambda>name newSelected. if name \<in> set newSelected then newSelected else newSelected @ [name])
       currentSelection (newSet selected)"

text \<open>
  \<^verbatim>\<open>setSelectionRange\<close>, the handler of pointer-up, for a drag that started at \<open>start\<close> and
  ends at \<open>finish\<close>; the result is the selection handed to \<^verbatim>\<open>onSelect\<close>.
\<close>

definition setSelectionRange :: "string list \<Rightarrow> string list \<Rightarrow> string \<Rightarrow> string \<Rightarrow> string list" where
  "setSelectionRange partitionNames selected start finish =
     (let currentSelection = getRangeSelection partitionNames start finish;
          allSelected = (\<forall>name\<in>set currentSelection. name \<in> set selected)
      in if allSelected then filter (\<lambda>x. x \<notin> set currentSelection) selected
         else addToSelection selected currentSelection)"

subsection \<open>Adding to an insertion-ordered set\<close>

lemma set_addToSelection: "set (addToSelection selected rng) = set selected \<union> set rng"
  by (simp add: addToSelection_def set_fold_add)

lemma distinct_addToSelection: "distinct (addToSelection selected rng)"
  by (simp add: addToSelection_def distinct_fold_add)

lemma addToSelection_idem:
  "addToSelection (addToSelection selected rng) rng = addToSelection selected rng"
proof -
  let ?r = "addToSelection selected rng"
  have "newSet ?r = ?r" by (rule newSet_distinct) (rule distinct_addToSelection)
  moreover have "set rng \<subseteq> set ?r" by (simp add: set_addToSelection)
  ultimately show ?thesis
    by (subst addToSelection_def) (simp add: fold_add_absorb)
qed

subsection \<open>The range between two names of a list without repetitions\<close>

lemma indexOfFrom_nth:
  "distinct xs \<Longrightarrow> k < length xs \<Longrightarrow> indexOfFrom xs (xs ! k) i = i + int k"
proof (induction xs arbitrary: k i)
  case Nil
  then show ?case by simp
next
  case (Cons y ys)
  show ?case
  proof (cases k)
    case 0
    then show ?thesis by simp
  next
    case (Suc k')
    with Cons.prems have "ys ! k' \<noteq> y" by auto
    with Cons Suc show ?thesis by simp
  qed
qed

lemma indexOf_nth: "distinct xs \<Longrightarrow> k < length xs \<Longrightarrow> indexOf xs (xs ! k) = int k"
  by (simp add: indexOf_def indexOfFrom_nth)

lemma slice_interval:
  assumes "lo \<le> hi" and "hi < length xs"
  shows "slice xs (int lo) (int hi + 1) = map ((!) xs) [lo..<Suc hi]"
proof -
  have "take (Suc hi - lo) (drop lo xs) = map ((!) xs) [lo..<Suc hi]"
    using assms by (intro nth_equalityI) (simp_all del: upt_Suc)
  moreover have "nat (int hi + 1 - int lo) = Suc hi - lo"
    using assms by simp
  moreover have "min (int lo) (int (length xs)) = int lo" "min (int hi + 1) (int (length xs)) = int hi + 1"
    using assms by simp_all
  ultimately show ?thesis
    by (simp add: slice_def Let_def del: upt_Suc)
qed

lemma getRangeSelection_interval:
  assumes "distinct names" and "i < length names" and "j < length names"
  shows "getRangeSelection names (names ! i) (names ! j) = map ((!) names) [min i j..<Suc (max i j)]"
proof -
  have "min (int i) (int j) = int (min i j)" "max (int i) (int j) = int (max i j)"
    by simp_all
  moreover have "min i j \<le> max i j" "max i j < length names"
    using assms by simp_all
  ultimately show ?thesis
    using assms by (simp add: getRangeSelection_def Let_def indexOf_nth slice_interval del: upt_Suc)
qed

lemma getRangeSelection_commute:
  "getRangeSelection names a b = getRangeSelection names b a"
  by (simp add: getRangeSelection_def Let_def min.commute max.commute)

subsection \<open>The range between the first occurrences of two names\<close>

lemma indexOfFrom_first:
  "x \<in> set xs \<Longrightarrow>
   \<exists>k<length xs. indexOfFrom xs x i = i + int k \<and> xs ! k = x \<and> (\<forall>m<k. xs ! m \<noteq> x)"
proof (induction xs arbitrary: i)
  case Nil
  then show ?case by simp
next
  case (Cons y ys)
  show ?case
  proof (cases "y = x")
    case True
    then show ?thesis by (intro exI [of _ 0]) simp
  next
    case False
    with Cons.prems have "x \<in> set ys" by simp
    from Cons.IH [OF this, of "i + 1"] obtain k where k: "k < length ys"
      "indexOfFrom ys x (i + 1) = i + 1 + int k" "ys ! k = x" "\<forall>m<k. ys ! m \<noteq> x"
      by blast
    have "\<forall>m<Suc k. (y # ys) ! m \<noteq> x"
      using False k(4) by (auto simp: nth_Cons split: nat.splits)
    with False k show ?thesis
      by (intro exI [of _ "Suc k"]) simp
  qed
qed

lemma indexOf_first:
  assumes "x \<in> set xs"
  shows "nat (indexOf xs x) < length xs \<and> indexOf xs x = int (nat (indexOf xs x)) \<and>
         xs ! nat (indexOf xs x) = x \<and> (\<forall>m<nat (indexOf xs x). xs ! m \<noteq> x)"
proof -
  from indexOfFrom_first [OF assms, of 0] obtain k where "k < length xs"
    "indexOf xs x = int k" "xs ! k = x" "\<forall>m<k. xs ! m \<noteq> x"
    by (auto simp: indexOf_def)
  then show ?thesis by simp
qed

lemma getRangeSelection_first:
  assumes "a \<in> set names" and "b \<in> set names"
  shows "getRangeSelection names a b =
           map ((!) names) [min (nat (indexOf names a)) (nat (indexOf names b))..<
                            Suc (max (nat (indexOf names a)) (nat (indexOf names b)))]"
proof -
  let ?i = "nat (indexOf names a)" and ?j = "nat (indexOf names b)"
  from indexOf_first [OF assms(1)] have i: "?i < length names" "indexOf names a = int ?i"
    by simp_all
  from indexOf_first [OF assms(2)] have j: "?j < length names" "indexOf names b = int ?j"
    by simp_all
  from i(2) j(2) have nn: "0 \<le> indexOf names a" "0 \<le> indexOf names b"
    by linarith+
  have "min (indexOf names a) (indexOf names b) = int (min ?i ?j)"
    using nn by (auto simp: min_def)
  moreover have "max (indexOf names a) (indexOf names b) = int (max ?i ?j)"
    using nn by (auto simp: max_def)
  moreover have "min ?i ?j \<le> max ?i ?j" "max ?i ?j < length names"
    using i(1) j(1) by simp_all
  ultimately show ?thesis
    by (simp only: getRangeSelection_def Let_def slice_interval)
qed

definition repeatedNames :: "string list" where
  "repeatedNames = [''a'', ''b'', ''c'', ''a'', ''d'']"

text \<open>
  C8 (as amended). For every selection, list of partition names and pair of drag
  endpoints (partition names): the range taken at pointer-up does not depend on the order
  of the endpoints. An endpoint that occurs in the list stands for its first occurrence;
  when both endpoints occur in the list the range is the closed index interval between
  their first occurrences, which for a list without repeated names is the closed interval
  between the two dragged positions. If every partition of the range is already selected,
  the result is the selection with exactly the partitions of the range removed; otherwise
  it is the union of the selection and the range. Adding is idempotent: adding the same
  range to the result again changes nothing.
\<close>

theorem setSelectionRange_spec:
  "getRangeSelection names a b = getRangeSelection names b a \<and>
   (a \<in> set names \<longrightarrow>
      nat (indexOf names a) < length names \<and> names ! nat (indexOf names a) = a \<and>
      (\<forall>m<nat (indexOf names a). names ! m \<noteq> a)) \<and>
   (a \<in> set names \<and> b \<in> set names \<longrightarrow>
      getRangeSelection names a b =
        map ((!) names) [min (nat (indexOf names a)) (nat (indexOf names b))..<
                         Suc (max (nat (indexOf names a)) (nat (indexOf names b)))]) \<and>
   (distinct names \<and> i < length names \<and> j < length names \<longrightarrow>
      getRangeSelection names (names ! i) (names ! j) = map ((!) names) [min i j..<Suc (max i j)]) \<and>
   (set (getRangeSelection names a b) \<subseteq> set selected \<longrightarrow>
      setSelectionRange names selected a b =
        filter (\<lambda>x. x \<notin> set (getRangeSelection names a b)) selected \<and>
      set (setSelectionRange names selected a b) = set selected - set (getRangeSelection names a b)) \<and>
   (\<not> set (getRangeSelection names a b) \<subseteq> set selected \<longrightarrow>
      setSelectionRange names selected a b = addToSelection selected (getRangeSelection names a b) \<and>
      set (setSelectionRange names selected a b) = set selected \<union> set (getRangeSelection names a b)) \<and>
   addToSelection (addToSelection selected rng) rng = addToSelection selected rng"
proof (intro conjI impI)
  show "getRangeSelection names a b = getRangeSelection names b a"
    by (rule getRangeSelection_commute)
  show "getRangeSelection names (names ! i) (names ! j) = map ((!) names) [min i j..<Suc (max i j)]"
    if "distinct names \<and> i < length names \<and> j < length names"
    using that by (simp add: getRangeSelection_interval del: upt_Suc)
  show "addToSelection (addToSelection selected rng) rng = addToSelection selected rng"
    by (rule addToSelection_idem)
  show "getRangeSelection names a b =
        map ((!) names) [min (nat (indexOf names a)) (nat (indexOf names b))..<
                         Suc (max (nat (indexOf names a)) (nat (indexOf names b)))]"
    if "a \<in> set names \<and> b \<in> set names"
    using that by (intro getRangeSelection_first) simp_all
next
  assume "a \<in> set names"
  from indexOf_first [OF this]
  show "nat (indexOf names a) < length names" and "names ! nat (indexOf names a) = a"
    and "\<forall>m<nat (indexOf names a). names ! m \<noteq> a"
    by blast+
next
  assume all: "set (getRangeSelection names a b) \<subseteq> set selected"
  then show "setSelectionRange names selected a b =
        filter (\<lambda>x. x \<notin> set (getRangeSelection names a b)) selected"
    by (auto simp: setSelectionRange_def Let_def)
  then show "set (setSelectionRange names selected a b) = set selected - set (getRangeSelection names a b)"
    by auto
next
  assume notall: "\<not> set (getRangeSelection names a b) \<subseteq> set selected"
  then show "setSelectionRange names selected a b = addToSelection selected (getRangeSelection names a b)"
    by (auto simp: setSelectionRange_def Let_def)
  then show "set (setSelectionRange names selected a b) = set selected \<union> set (getRangeSelection names a b)"
    by (simp add: set_addToSelection)
qed

definition sixNames :: "string list" where
  "sixNames = [''p1'', ''p2'', ''p3'', ''p4'', ''p5'', ''p6'']"

text \<open>
  With p2, p3 and p5 selected: dragging from p3 back to p2 removes p2 and p3; dragging
  from p4 back to p2 adds p4. In a list where a name is repeated, the endpoints a and d
  stand for the positions 0 and 4.
\<close>

theorem setSelectionRange_spec_witness:
  "distinct sixNames \<and>
   getRangeSelection sixNames (sixNames ! 3) (sixNames ! 1) = [''p2'', ''p3'', ''p4''] \<and>
   set (getRangeSelection sixNames ''p3'' ''p2'') \<subseteq> set [''p2'', ''p3'', ''p5''] \<and>
   setSelectionRange sixNames [''p2'', ''p3'', ''p5''] ''p3'' ''p2'' = [''p5''] \<and>
   \<not> set (getRangeSelection sixNames ''p4'' ''p2'') \<subseteq> set [''p2'', ''p3'', ''p5''] \<and>
   setSelectionRange sixNames [''p2'', ''p3'', ''p5''] ''p4'' ''p2'' = [''p2'', ''p3'', ''p5'', ''p4''] \<and>
   ''a'' \<in> set repeatedNames \<and> ''d'' \<in> set repeatedNames \<and>
   repeatedNames ! nat (indexOf repeatedNames ''a'') = ''a'' \<and>
   getRangeSelection repeatedNames ''a'' ''d'' = repeatedNames"
proof -
  have d: "distinct sixNames \<and> 3 < length sixNames \<and> 1 < length sixNames"
    by (simp add: sixNames_def)
  have r1: "getRangeSelection sixNames ''p3'' ''p2'' = [''p2'', ''p3'']" by code_simp
  have r2: "getRangeSelection sixNames ''p4'' ''p2'' = [''p2'', ''p3'', ''p4'']" by code_simp
  have ix: "map ((!) sixNames) [min 3 1..<Suc (max 3 1)] = [''p2'', ''p3'', ''p4'']" by code_simp
  have sub: "set (getRangeSelection sixNames ''p3'' ''p2'') \<subseteq> set [''p2'', ''p3'', ''p5'']"
    by (simp add: r1)
  have notsub: "\<not> set (getRangeSelection sixNames ''p4'' ''p2'') \<subseteq> set [''p2'', ''p3'', ''p5'']"
    by (simp add: r2)
  have f: "filter (\<lambda>x. x \<notin> set [''p2'', ''p3'']) [''p2'', ''p3'', ''p5''] = [''p5'']"
    by simp
  have ad: "addToSelection [''p2'', ''p3'', ''p5''] [''p2'', ''p3'', ''p4''] = [''p2'', ''p3'', ''p5'', ''p4'']"
    by code_simp
  have ma: "''a'' \<in> set repeatedNames" and md: "''d'' \<in> set repeatedNames"
    by (simp_all add: repeatedNames_def)
  from ma md have mad: "''a'' \<in> set repeatedNames \<and> ''d'' \<in> set repeatedNames" by simp
  have rx: "map ((!) repeatedNames)
              [min (nat (indexOf repeatedNames ''a'')) (nat (indexOf repeatedNames ''d''))..<
               Suc (max (nat (indexOf repeatedNames ''a'')) (nat (indexOf repeatedNames ''d'')))]
            = repeatedNames"
    by code_simp
  note t = setSelectionRange_spec [where names = sixNames and i = 3 and j = 1
      and selected = "[''p2'', ''p3'', ''p5'']"]
  note u = setSelectionRange_spec [where names = repeatedNames and a = "''a''" and b = "''d''"]
  from t [THEN conjunct2, THEN conjunct2, THEN conjunct2, THEN conjunct1, rule_format, OF d]
  have 1: "getRangeSelection sixNames (sixNames ! 3) (sixNames ! 1) = [''p2'', ''p3'', ''p4'']"
    by (simp only: ix)
  from t [where a = "''p3''" and b = "''p2''", THEN conjunct2, THEN conjunct2, THEN conjunct2,
      THEN conjunct2, THEN conjunct1, rule_format, OF sub, THEN conjunct1]
  have 2: "setSelectionRange sixNames [''p2'', ''p3'', ''p5''] ''p3'' ''p2'' = [''p5'']"
    by (simp only: r1 f)
  from t [where a = "''p4''" and b = "''p2''", THEN conjunct2, THEN conjunct2, THEN conjunct2,
      THEN conjunct2, THEN conjunct2, THEN conjunct1, rule_format, OF notsub, THEN conjunct1]
  have 3: "setSelectionRange sixNames [''p2'', ''p3'', ''p5''] ''p4'' ''p2'' = [''p2'', ''p3'', ''p5'', ''p4'']"
    by (simp only: r2 ad)
  from u [THEN conjunct2, THEN conjunct1, rule_format, OF ma]
  have 4: "repeatedNames ! nat (indexOf repeatedNames ''a'') = ''a''" by blast
  from u [THEN conjunct2, THEN conjunct2, THEN conjunct1, rule_format, OF mad]
  have 5: "getRangeSelection repeatedNames ''a'' ''d'' = repeatedNames"
    by (simp only: rx)
  from d 1 2 3 4 5 sub notsub ma md show ?thesis by (simp only: simp_thms)
qed

text \<open>
  The range is not always the interval between the dragged positions: in a list where
  the name a is at positions 0 and 3, a drag from position 3 to position 4 takes the
  whole strip, not the two partitions under the pointer. An endpoint that is not in the
  list is looked up as -1, which \<^verbatim>\<open>slice\<close> counts from the end of the list.
\<close>

theorem setSelectionRange_interval_counterexample:
  "getRangeSelection repeatedNames (repeatedNames ! 3) (repeatedNames ! 4)
     = [''a'', ''b'', ''c'', ''a'', ''d''] \<and>
   map ((!) repeatedNames) [3..<Suc 4] = [''a'', ''d''] \<and>
   getRangeSelection sixNames ''zz'' ''p6'' = [''p6''] \<and>
   getRangeSelection sixNames ''zz'' ''p2'' = []"
  by code_simp

end
